theory Spec2Isabelle
  imports Main "HOL-Library.Word" "HOL-Library.AList"
begin

section \<open>JavaScript strings\<close>

text \<open>
  A JavaScript string is a sequence of UTF-16 code units. The manifest is read with
  \<open>JSON.parse\<close>, so a name or a version specifier can be any such sequence, lone
  surrogates included (the escape \<open>\ud800\<close> in the manifest text).
\<close>

type_synonym jsstring = "16 word list"

definition js :: "string \<Rightarrow> jsstring" where
  \<comment> \<open>an ASCII literal of the source as code units\<close>
  "js s = map of_char s"

definition startsWith :: "jsstring \<Rightarrow> jsstring \<Rightarrow> bool" where
  \<comment> \<open>\<open>s.startsWith(p)\<close>; also the anchored regular expressions \<open>/^.../\<close>\<close>
  "startsWith s p = (take (length p) s = p)"

definition includes_js :: "'a list \<Rightarrow> 'a \<Rightarrow> bool" where
  \<comment> \<open>\<open>Array.prototype.includes\<close>, and \<open>String.prototype.includes\<close> for one code unit\<close>
  "includes_js xs x = (x \<in> set xs)"

definition charAt0 :: "jsstring \<Rightarrow> jsstring option" where
  \<comment> \<open>\<open>key[0]\<close>: the first code unit as a string, \<open>undefined\<close> for the empty string\<close>
  "charAt0 s = (case s of [] \<Rightarrow> None | c # _ \<Rightarrow> Some [c])"

definition truthy :: "jsstring option \<Rightarrow> bool" where
  \<comment> \<open>\<open>null\<close>, \<open>undefined\<close> and the empty string are falsy\<close>
  "truthy v = (case v of None \<Rightarrow> False | Some s \<Rightarrow> s \<noteq> [])"

section \<open>The built-in \<open>encodeURI\<close>\<close>

datatype error = URIError

definition uriReserved :: jsstring where
  "uriReserved = js '';/?:@&=+$,''"

definition uriAlpha :: jsstring where
  "uriAlpha = js ''abcdefghijklmnopqrstuvwxyzABCDEFGHIJKLMNOPQRSTUVWXYZ''"

definition DecimalDigit :: jsstring where
  "DecimalDigit = js ''0123456789''"

definition uriMark :: jsstring where
  "uriMark = js ''-_.!~*'()''"

definition unescapedURISet :: jsstring where
  \<comment> \<open>what \<open>encodeURI\<close> leaves as it is: reserved and unreserved characters and \<open>#\<close>\<close>
  "unescapedURISet = uriReserved @ uriAlpha @ DecimalDigit @ uriMark @ js ''#''"

definition isLeadingSurrogate :: "16 word \<Rightarrow> bool" where
  "isLeadingSurrogate c = (0xD800 \<le> c \<and> c \<le> 0xDBFF)"

definition isTrailingSurrogate :: "16 word \<Rightarrow> bool" where
  "isTrailingSurrogate c = (0xDC00 \<le> c \<and> c \<le> 0xDFFF)"

definition UTF16SurrogatePairToCodePoint :: "16 word \<Rightarrow> 16 word \<Rightarrow> int" where
  "UTF16SurrogatePairToCodePoint lead trail =
     (uint lead - 0xD800) * 0x400 + (uint trail - 0xDC00) + 0x10000"

definition utf8 :: "int \<Rightarrow> int list" where
  \<comment> \<open>the octets of a code point in UTF-8\<close>
  "utf8 cp =
     (if cp < 0x80 then [cp]
      else if cp < 0x800 then [0xC0 + cp div 0x40, 0x80 + cp mod 0x40]
      else if cp < 0x10000 then
        [0xE0 + cp div 0x1000, 0x80 + (cp div 0x40) mod 0x40, 0x80 + cp mod 0x40]
      else
        [0xF0 + cp div 0x40000, 0x80 + (cp div 0x1000) mod 0x40,
         0x80 + (cp div 0x40) mod 0x40, 0x80 + cp mod 0x40])"

definition hexDigit :: "int \<Rightarrow> 16 word" where
  \<comment> \<open>one upper-case hexadecimal digit\<close>
  "hexDigit n = (if n < 10 then word_of_int (0x30 + n) else word_of_int (0x41 + (n - 10)))"

definition percent :: "int \<Rightarrow> jsstring" where
  \<comment> \<open>\<open>%XX\<close> for one octet\<close>
  "percent b = [0x25, hexDigit (b div 16), hexDigit (b mod 16)]"

definition escaped :: "int \<Rightarrow> jsstring" where
  "escaped cp = concat (map percent (utf8 cp))"

definition prepend :: "jsstring \<Rightarrow> error + jsstring \<Rightarrow> error + jsstring" where
  "prepend p r = (case r of Inl e \<Rightarrow> Inl e | Inr s \<Rightarrow> Inr (p @ s))"

fun encodeURI :: "jsstring \<Rightarrow> error + jsstring" where
  "encodeURI [] = Inr []"
| "encodeURI [c] =
     (if includes_js unescapedURISet c then Inr [c]
      else if isLeadingSurrogate c \<or> isTrailingSurrogate c then Inl URIError
      else Inr (escaped (uint c)))"
| "encodeURI (c # d # s) =
     (if includes_js unescapedURISet c then prepend [c] (encodeURI (d # s))
      else if isTrailingSurrogate c then Inl URIError
      else if isLeadingSurrogate c then
        (if isTrailingSurrogate d
         then prepend (escaped (UTF16SurrogatePairToCodePoint c d)) (encodeURI s)
         else Inl URIError)
      else prepend (escaped (uint c)) (encodeURI (d # s)))"

section \<open>The CDN table \<open>cdns\<close>\<close>

datatype Cdn = Skypack | Esm | Jspm | Unpkg

text \<open>
  Each builder tests \<open>version\<close> for truthiness: \<open>undefined\<close> and the empty string
  take the branch without a version.
\<close>

definition skypack :: "jsstring \<Rightarrow> jsstring option \<Rightarrow> error + jsstring" where
  "skypack pkg version =
     (if truthy version
      then prepend (js ''https://cdn.skypack.dev/'' @ pkg @ js ''@'') (encodeURI (the version))
      else Inr (js ''https://cdn.skypack.dev/'' @ pkg @ js ''/''))"

definition esm :: "jsstring \<Rightarrow> jsstring option \<Rightarrow> error + jsstring" where
  "esm pkg version =
     (if truthy version
      then prepend (js ''https://esm.sh/'' @ pkg @ js ''@'') (encodeURI (the version))
      else Inr (js ''https://esm.sh/'' @ pkg))"

definition jspm :: "jsstring \<Rightarrow> jsstring option \<Rightarrow> error + jsstring" where
  "jspm pkg version =
     (if truthy version
      then prepend (js ''https://jspm.dev/npm:'' @ pkg @ js ''@'') (encodeURI (the version))
      else Inr (js ''https://jspm.dev/npm:'' @ pkg))"

definition unpkg :: "jsstring \<Rightarrow> jsstring option \<Rightarrow> error + jsstring" where
  "unpkg pkg version =
     (if truthy version
      then prepend (js ''https://unpkg.com/'' @ pkg @ js ''@'') (encodeURI (the version))
      else Inr (js ''https://unpkg.com/'' @ pkg))"

fun cdns :: "Cdn \<Rightarrow> jsstring \<Rightarrow> jsstring option \<Rightarrow> error + jsstring" where
  "cdns Skypack = skypack"
| "cdns Esm = esm"
| "cdns Jspm = jspm"
| "cdns Unpkg = unpkg"

section \<open>Objects with string values\<close>

text \<open>
  A \<open>Record<string, string>\<close> is the list of its own properties in the order in which
  \<open>Object.entries\<close> and \<open>JSON.stringify\<close> visit them: the keys that are array indices
  first, in ascending numeric order, then the other keys in the order of their creation.
\<close>

type_synonym jsobject = "(jsstring \<times> jsstring) list"

definition isDigit :: "16 word \<Rightarrow> bool" where
  "isDigit c = (0x30 \<le> c \<and> c \<le> 0x39)"

definition toNumber :: "jsstring \<Rightarrow> int" where
  \<comment> \<open>the value of a string of decimal digits\<close>
  "toNumber s = foldl (\<lambda>n c. 10 * n + (uint c - 0x30)) 0 s"

definition arrayIndex :: "jsstring \<Rightarrow> int option" where
  \<comment> \<open>an array index is the canonical decimal form of an integer below \<open>2^32 - 1\<close>\<close>
  "arrayIndex s =
     (if s \<noteq> [] \<and> list_all isDigit s \<and> (s = js ''0'' \<or> hd s \<noteq> 0x30)
         \<and> toNumber s < 4294967295
      then Some (toNumber s) else None)"

fun insertIndex :: "int \<Rightarrow> jsstring \<times> 'a \<Rightarrow> (jsstring \<times> 'a) list \<Rightarrow> (jsstring \<times> 'a) list" where
  "insertIndex n p [] = [p]"
| "insertIndex n p (q # qs) =
     (case arrayIndex (fst q) of
        Some m \<Rightarrow> if m < n then q # insertIndex n p qs else p # q # qs
      | None \<Rightarrow> p # q # qs)"

definition assign :: "(jsstring \<times> 'a) list \<Rightarrow> jsstring \<Rightarrow> 'a \<Rightarrow> (jsstring \<times> 'a) list" where
  \<comment> \<open>\<open>obj[key] = value\<close>: an existing property keeps its place, a new one is created.
     (Deno deletes \<open>Object.prototype.__proto__\<close>, so no key is special.) The values are
     strings in \<open>imports\<close>; \<open>JSON.parse\<close> below creates properties in the same way.\<close>
  "assign obj key v =
     (if key \<in> fst ` set obj then AList.update key v obj
      else case arrayIndex key of
             Some n \<Rightarrow> insertIndex n (key, v) obj
           | None \<Rightarrow> obj @ [(key, v)])"

section \<open>The package \<open>semver\<close>\<close>

text \<open>
  \<open>semver\<close> is imported from a CDN and is not part of the repository. The two functions
  the program calls are parameters of the model: \<open>valid\<close> gives the normalised version
  or \<open>null\<close>, \<open>validRange\<close> the normalised range or \<open>null\<close>.
\<close>

record semver =
  valid :: "jsstring \<Rightarrow> jsstring option"
  validRange :: "jsstring \<Rightarrow> jsstring option"

section \<open>\<open>addImports\<close> and \<open>getImports\<close>\<close>

datatype warning =
    TypeOnly jsstring                 \<comment> \<open>type only dependency "key" found\<close>
  | GitDependency jsstring jsstring   \<comment> \<open>git dependency of "value" for "key"\<close>
  | LocalPath jsstring jsstring       \<comment> \<open>local path of "value" for "key"\<close>
  | RemoteURL jsstring jsstring       \<comment> \<open>remote URL of "value" for "key"\<close>
  | GitHubURL jsstring jsstring       \<comment> \<open>GitHub URL of "value" for "key"\<close>

text \<open>
  The state of a run: the object \<open>imports\<close> that \<open>addImports\<close> mutates, and the lines
  written with \<open>console.warn\<close>, oldest first.
\<close>

type_synonym state = "jsobject \<times> warning list"

definition importURL :: "semver \<Rightarrow> Cdn \<Rightarrow> jsstring \<Rightarrow> jsstring \<Rightarrow> warning + (error + jsstring)" where
  \<comment> \<open>the branches of the loop body for one entry \<open>[key, value]\<close>: \<open>Inl\<close> is
     \<open>console.warn(...); continue;\<close>, \<open>Inr\<close> is the expression stored in \<open>importURL\<close>,
     whose evaluation may throw\<close>
  "importURL sv cdn key value =
     (if startsWith key (js ''@types'') then Inl (TypeOnly key)
      else
        let version = valid sv value in
        if truthy version then Inr (cdns cdn key version)
        else
          let range = validRange sv value in
          if truthy range then Inr (cdns cdn key range)
          else if value = [] \<or> value = js ''*'' then Inr (cdns cdn key None)
          else if startsWith value (js ''git+'') \<or> startsWith value (js ''git:'')
            then Inl (GitDependency value key)
          else if includes_js [Some (js ''.''), Some (js ''~''), Some (js ''.''), Some (js ''/'')]
                    (charAt0 key)
            then Inl (LocalPath value key)
          else if startsWith value (js ''http:'') \<or> startsWith value (js ''https:'')
            then Inl (RemoteURL value key)
          else if includes_js value 0x2F
            then Inl (GitHubURL value key)
          else Inr (cdns cdn key (Some value)))"

definition addImport :: "semver \<Rightarrow> Cdn \<Rightarrow> jsstring \<times> jsstring \<Rightarrow> state \<Rightarrow> error + state" where
  \<comment> \<open>one turn of the loop: the warning, or \<open>imports[key] = importURL\<close>\<close>
  "addImport sv cdn entry st =
     (case importURL sv cdn (fst entry) (snd entry) of
        Inl w \<Rightarrow> Inr (fst st, snd st @ [w])
      | Inr (Inl e) \<Rightarrow> Inl e
      | Inr (Inr url) \<Rightarrow> Inr (assign (fst st) (fst entry) url, snd st))"

fun addImports :: "semver \<Rightarrow> Cdn \<Rightarrow> jsobject \<Rightarrow> state \<Rightarrow> error + state" where
  \<comment> \<open>\<open>for (const [key, value] of Object.entries(dependencies))\<close>; an exception ends it\<close>
  "addImports sv cdn [] st = Inr st"
| "addImports sv cdn (entry # dependencies) st =
     (case addImport sv cdn entry st of
        Inl e \<Rightarrow> Inl e
      | Inr st' \<Rightarrow> addImports sv cdn dependencies st')"

record PackageJson =
  dependencies :: "jsobject option"
  devDependencies :: "jsobject option"
  peerDependencies :: "jsobject option"
  optionalDependencies :: "jsobject option"

datatype key = Dependencies | DevDependencies | PeerDependencies | OptionalDependencies

fun field :: "PackageJson \<Rightarrow> key \<Rightarrow> jsobject option" where
  \<comment> \<open>\<open>packageJson[key]\<close>\<close>
  "field p Dependencies = dependencies p"
| "field p DevDependencies = devDependencies p"
| "field p PeerDependencies = peerDependencies p"
| "field p OptionalDependencies = optionalDependencies p"

fun getImportsFrom :: "semver \<Rightarrow> PackageJson \<Rightarrow> key list \<Rightarrow> Cdn \<Rightarrow> state \<Rightarrow> error + state" where
  \<comment> \<open>the loop \<open>for (const key of keys)\<close> of \<open>getImports\<close>\<close>
  "getImportsFrom sv packageJson [] cdn st = Inr st"
| "getImportsFrom sv packageJson (k # keys) cdn st =
     (case field packageJson k of
        None \<Rightarrow> getImportsFrom sv packageJson keys cdn st
      | Some deps \<Rightarrow>
          (case addImports sv cdn deps st of
             Inl e \<Rightarrow> Inl e
           | Inr st' \<Rightarrow> getImportsFrom sv packageJson keys cdn st'))"

definition getImports :: "semver \<Rightarrow> PackageJson \<Rightarrow> key list \<Rightarrow> Cdn \<Rightarrow> error + state" where
  \<comment> \<open>starts from \<open>imports = {}\<close>; the result is \<open>imports\<close> with the warnings printed\<close>
  "getImports sv packageJson keys cdn = getImportsFrom sv packageJson keys cdn ([], [])"

definition mainKeys :: "bool \<Rightarrow> bool \<Rightarrow> bool \<Rightarrow> key list" where
  \<comment> \<open>the list \<open>keys\<close> that \<open>main\<close> builds from the flags and reverses\<close>
  "mainKeys dev optional peer =
     rev ([Dependencies]
          @ (if dev then [DevDependencies] else [])
          @ (if optional then [OptionalDependencies] else [])
          @ (if peer then [PeerDependencies] else []))"

section \<open>The import map and \<open>JSON.stringify\<close>\<close>

record ImportMap =
  "imports" :: jsobject
  scopes :: "(jsstring \<times> jsobject) list option"

text \<open>
  The values \<open>JSON.stringify\<close> meets here are strings and objects; the properties of an
  object are listed in the order of \<open>Object.keys\<close>.
\<close>

datatype jsvalue = String jsstring | Object "(jsstring \<times> jsvalue) list"

definition recordValue :: "jsobject \<Rightarrow> jsvalue" where
  "recordValue obj = Object (map (\<lambda>(k, v). (k, String v)) obj)"

definition importMapValue :: "ImportMap \<Rightarrow> jsvalue" where
  \<comment> \<open>the own properties of the import map: \<open>scopes\<close> is one only when it was given\<close>
  "importMapValue m =
     Object ((js ''imports'', recordValue (imports m))
             # (case scopes m of
                  None \<Rightarrow> []
                | Some sc \<Rightarrow> [(js ''scopes'', Object (map (\<lambda>(k, obj). (k, recordValue obj)) sc))]))"

definition lowerHexDigit :: "int \<Rightarrow> 16 word" where
  "lowerHexDigit n = (if n < 10 then word_of_int (0x30 + n) else word_of_int (0x61 + (n - 10)))"

definition UnicodeEscape :: "16 word \<Rightarrow> jsstring" where
  \<comment> \<open>a backslash, \<open>u\<close> and four lower-case hexadecimal digits\<close>
  "UnicodeEscape c =
     [0x5C, 0x75, lowerHexDigit (uint c div 0x1000), lowerHexDigit (uint c div 0x100 mod 0x10),
      lowerHexDigit (uint c div 0x10 mod 0x10), lowerHexDigit (uint c mod 0x10)]"

definition quoteUnit :: "16 word \<Rightarrow> jsstring" where
  \<comment> \<open>one code unit that is not half of a surrogate pair\<close>
  "quoteUnit c =
     (if c = 0x08 then [0x5C, 0x62]
      else if c = 0x09 then [0x5C, 0x74]
      else if c = 0x0A then [0x5C, 0x6E]
      else if c = 0x0C then [0x5C, 0x66]
      else if c = 0x0D then [0x5C, 0x72]
      else if c = 0x22 then [0x5C, 0x22]
      else if c = 0x5C then [0x5C, 0x5C]
      else if c < 0x20 \<or> isLeadingSurrogate c \<or> isTrailingSurrogate c then UnicodeEscape c
      else [c])"

fun quoteUnits :: "jsstring \<Rightarrow> jsstring" where
  \<comment> \<open>the code points of the string in turn: a surrogate pair is copied\<close>
  "quoteUnits [] = []"
| "quoteUnits [c] = quoteUnit c"
| "quoteUnits (c # d # s) =
     (if isLeadingSurrogate c \<and> isTrailingSurrogate d then c # d # quoteUnits s
      else quoteUnit c @ quoteUnits (d # s))"

definition QuoteJSONString :: "jsstring \<Rightarrow> jsstring" where
  "QuoteJSONString s = [0x22] @ quoteUnits s @ [0x22]"

definition join :: "jsstring \<Rightarrow> jsstring list \<Rightarrow> jsstring" where
  \<comment> \<open>\<open>Array.prototype.join\<close>\<close>
  "join sep xs = (case xs of [] \<Rightarrow> [] | x # ys \<Rightarrow> x @ concat (map (\<lambda>y. sep @ y) ys))"

fun SerializeJSONProperty :: "jsstring \<Rightarrow> jsstring \<Rightarrow> jsvalue \<Rightarrow> jsstring"
  and SerializeJSONMembers :: "jsstring \<Rightarrow> jsstring \<Rightarrow> (jsstring \<times> jsvalue) list \<Rightarrow> jsstring list"
where
  "SerializeJSONProperty gap indent (String s) = QuoteJSONString s"
| "SerializeJSONProperty gap indent (Object ps) =
     (let stepback = indent;
          indent = indent @ gap;
          partial = SerializeJSONMembers gap indent ps
      in if partial = [] then js ''{}''
         else if gap = [] then js ''{'' @ join (js '','') partial @ js ''}''
         else js ''{'' @ [0x0A] @ indent @ join (js '','' @ [0x0A] @ indent) partial
              @ [0x0A] @ stepback @ js ''}'')"
| "SerializeJSONMembers gap indent [] = []"
| "SerializeJSONMembers gap indent (p # ps) =
     (QuoteJSONString (fst p) @ js '':'' @ (if gap \<noteq> [] then js '' '' else [])
        @ SerializeJSONProperty gap indent (snd p))
     # SerializeJSONMembers gap indent ps"

definition JSON_stringify :: "jsvalue \<Rightarrow> jsstring \<Rightarrow> jsstring" where
  \<comment> \<open>\<open>JSON.stringify(value, undefined, space)\<close> for a string \<open>space\<close> of at most ten
     code units\<close>
  "JSON_stringify v space = SerializeJSONProperty space [] v"

section \<open>The built-in \<open>JSON.parse\<close>\<close>

text \<open>
  \<open>JSON.parse\<close> on the texts whose values are strings and objects. \<open>None\<close> stands for
  the \<open>SyntaxError\<close>, and also for a text with a number, an array or a literal, which
  are values outside this model. An object is built by creating its properties in the
  order of the text; a name that comes twice keeps its first place and its last value.
\<close>

definition isWhiteSpace :: "16 word \<Rightarrow> bool" where
  "isWhiteSpace c = (c = 0x20 \<or> c = 0x09 \<or> c = 0x0A \<or> c = 0x0D)"

definition skipWhiteSpace :: "jsstring \<Rightarrow> jsstring" where
  "skipWhiteSpace s = dropWhile isWhiteSpace s"

definition hexValue :: "16 word \<Rightarrow> int option" where
  "hexValue c =
     (if 0x30 \<le> c \<and> c \<le> 0x39 then Some (uint c - 0x30)
      else if 0x61 \<le> c \<and> c \<le> 0x66 then Some (uint c - 0x61 + 10)
      else if 0x41 \<le> c \<and> c \<le> 0x46 then Some (uint c - 0x41 + 10)
      else None)"

definition singleEscape :: "16 word \<Rightarrow> 16 word option" where
  \<comment> \<open>the character after a backslash, other than \<open>u\<close>\<close>
  "singleEscape c =
     (if c = 0x22 then Some 0x22
      else if c = 0x5C then Some 0x5C
      else if c = 0x2F then Some 0x2F
      else if c = 0x62 then Some 0x08
      else if c = 0x66 then Some 0x0C
      else if c = 0x6E then Some 0x0A
      else if c = 0x72 then Some 0x0D
      else if c = 0x74 then Some 0x09
      else None)"

definition consUnit :: "16 word \<Rightarrow> (jsstring \<times> jsstring) option \<Rightarrow> (jsstring \<times> jsstring) option" where
  "consUnit c r = (case r of None \<Rightarrow> None | Some (v, rest) \<Rightarrow> Some (c # v, rest))"

fun JSONStringCharacters :: "jsstring \<Rightarrow> (jsstring \<times> jsstring) option"
  and JSONEscape :: "jsstring \<Rightarrow> (jsstring \<times> jsstring) option"
  and JSONHex4 :: "jsstring \<Rightarrow> (jsstring \<times> jsstring) option"
where
  \<comment> \<open>after the opening quote: the value of the string and the text after the closing
     quote\<close>
  "JSONStringCharacters [] = None"
| "JSONStringCharacters (c # s) =
     (if c = 0x22 then Some ([], s)
      else if c = 0x5C then JSONEscape s
      else if c < 0x20 then None
      else consUnit c (JSONStringCharacters s))"
| "JSONEscape [] = None"
| "JSONEscape (e # s) =
     (if e = 0x75 then JSONHex4 s
      else case singleEscape e of
             None \<Rightarrow> None
           | Some c \<Rightarrow> consUnit c (JSONStringCharacters s))"
| "JSONHex4 (h1 # h2 # h3 # h4 # s) =
     (case (hexValue h1, hexValue h2, hexValue h3, hexValue h4) of
        (Some a, Some b, Some c, Some d) \<Rightarrow>
          consUnit (word_of_int (((a * 16 + b) * 16 + c) * 16 + d)) (JSONStringCharacters s)
      | _ \<Rightarrow> None)"
| "JSONHex4 _ = None"

fun JSONValue :: "nat \<Rightarrow> jsstring \<Rightarrow> (jsvalue \<times> jsstring) option"
  and JSONMembers :: "nat \<Rightarrow> jsstring \<Rightarrow> (jsstring \<times> jsvalue) list \<Rightarrow> (jsvalue \<times> jsstring) option"
where
  \<comment> \<open>the first argument bounds the number of nested calls; \<open>JSONMembers\<close> starts at
     the name of a member and has the properties created so far\<close>
  "JSONValue 0 s = None"
| "JSONValue (Suc n) s =
     (case skipWhiteSpace s of
        [] \<Rightarrow> None
      | c # t \<Rightarrow>
          if c = 0x22 then
            (case JSONStringCharacters t of
               None \<Rightarrow> None
             | Some (v, rest) \<Rightarrow> Some (String v, rest))
          else if c = 0x7B then
            (case skipWhiteSpace t of
               [] \<Rightarrow> None
             | d # u \<Rightarrow> if d = 0x7D then Some (Object [], u) else JSONMembers n (d # u) [])
          else None)"
| "JSONMembers 0 s obj = None"
| "JSONMembers (Suc n) s obj =
     (case s of
        [] \<Rightarrow> None
      | c # t \<Rightarrow>
          if c = 0x22 then
            (case JSONStringCharacters t of
               None \<Rightarrow> None
             | Some (k, rest) \<Rightarrow>
                 (case skipWhiteSpace rest of
                    [] \<Rightarrow> None
                  | d # u \<Rightarrow>
                      if d = 0x3A then
                        (case JSONValue n u of
                           None \<Rightarrow> None
                         | Some (v, rest') \<Rightarrow>
                             (case skipWhiteSpace rest' of
                                [] \<Rightarrow> None
                              | e # w \<Rightarrow>
                                  if e = 0x2C then JSONMembers n (skipWhiteSpace w) (assign obj k v)
                                  else if e = 0x7D then Some (Object (assign obj k v), w)
                                  else None))
                      else None))
          else None)"

definition JSON_parse :: "jsstring \<Rightarrow> jsvalue option" where
  \<comment> \<open>every nested call comes after a character of the text, so that the length of the
     text bounds their number\<close>
  "JSON_parse text =
     (case JSONValue (Suc (length text)) text of
        None \<Rightarrow> None
      | Some (v, rest) \<Rightarrow> if skipWhiteSpace rest = [] then Some v else None)"

section \<open>\<open>main\<close>, from the parsed manifest on\<close>

definition importMap :: "jsobject \<Rightarrow> ImportMap" where
  \<comment> \<open>the object literal \<open>{ imports: ... }\<close>, which has no property \<open>scopes\<close>\<close>
  "importMap imps = \<lparr>imports = imps, scopes = None\<rparr>"

definition main ::
  "semver \<Rightarrow> PackageJson \<Rightarrow> Cdn \<Rightarrow> bool \<Rightarrow> bool \<Rightarrow> bool \<Rightarrow> error + jsstring \<times> warning list" where
  \<comment> \<open>the text that is written to the file or to standard output, with the warnings\<close>
  "main sv packageJson cdn dev optional peer =
     (case getImports sv packageJson (mainKeys dev optional peer) cdn of
        Inl e \<Rightarrow> Inl e
      | Inr st \<Rightarrow>
          let importMapStr = JSON_stringify (importMapValue (importMap (fst st))) (js ''  '')
          in Inr (importMapStr, snd st))"

section \<open>Notions used to state the properties\<close>

fun wellFormed :: "jsstring \<Rightarrow> bool" where
  \<comment> \<open>no lone surrogate (\<open>String.prototype.isWellFormed\<close>)\<close>
  "wellFormed [] = True"
| "wellFormed [c] = (\<not> isLeadingSurrogate c \<and> \<not> isTrailingSurrogate c)"
| "wellFormed (c # d # s) =
     (if isLeadingSurrogate c then isTrailingSurrogate d \<and> wellFormed s
      else \<not> isTrailingSurrogate c \<and> wellFormed (d # s))"

definition entries :: "PackageJson \<Rightarrow> key list \<Rightarrow> (jsstring \<times> jsstring) list" where
  \<comment> \<open>the entries of the sections \<open>keys\<close> in the order in which they are processed\<close>
  "entries packageJson keys =
     concat (map (\<lambda>k. case field packageJson k of None \<Rightarrow> [] | Some deps \<Rightarrow> deps) keys)"

fun writes :: "semver \<Rightarrow> Cdn \<Rightarrow> (jsstring \<times> jsstring) list \<Rightarrow> (jsstring \<times> jsstring) list" where
  \<comment> \<open>the pairs of a name and its URL that a run over the entries stores, oldest first\<close>
  "writes sv cdn [] = []"
| "writes sv cdn (e # es) =
     (case importURL sv cdn (fst e) (snd e) of
        Inr (Inr url) \<Rightarrow> (fst e, url) # writes sv cdn es
      | _ \<Rightarrow> writes sv cdn es)"

fun warnings :: "semver \<Rightarrow> Cdn \<Rightarrow> (jsstring \<times> jsstring) list \<Rightarrow> warning list" where
  \<comment> \<open>the warnings of a run over the entries, oldest first\<close>
  "warnings sv cdn [] = []"
| "warnings sv cdn (e # es) =
     (case importURL sv cdn (fst e) (snd e) of
        Inl w \<Rightarrow> w # warnings sv cdn es
      | _ \<Rightarrow> warnings sv cdn es)"

definition throws :: "semver \<Rightarrow> Cdn \<Rightarrow> jsstring \<times> jsstring \<Rightarrow> bool" where
  \<comment> \<open>building the URL of the entry throws\<close>
  "throws sv cdn e = (case importURL sv cdn (fst e) (snd e) of Inr (Inl _) \<Rightarrow> True | _ \<Rightarrow> False)"

fun orderedFrom :: "int \<Rightarrow> (jsstring \<times> 'a) list \<Rightarrow> bool" where
  \<comment> \<open>the array indices above the bound come first and ascend, no other follows a name\<close>
  "orderedFrom n [] = True"
| "orderedFrom n (p # ps) =
     (case arrayIndex (fst p) of
        Some m \<Rightarrow> n < m \<and> orderedFrom m ps
      | None \<Rightarrow> list_all (\<lambda>q. arrayIndex (fst q) = None) ps)"

definition propertyOrder :: "(jsstring \<times> 'a) list \<Rightarrow> bool" where
  \<comment> \<open>the properties are distinct and in the order in which an object lists them\<close>
  "propertyOrder obj = (distinct (map fst obj) \<and> orderedFrom (- 1) obj)"

text \<open>
  The code points of a string: a leading surrogate followed by a trailing one is one code
  point, every other code unit is one by itself.
\<close>

fun codePoints :: "jsstring \<Rightarrow> int list" where
  "codePoints [] = []"
| "codePoints [c] = [uint c]"
| "codePoints (c # d # s) =
     (if 0xD800 \<le> uint c \<and> uint c \<le> 0xDBFF \<and> 0xDC00 \<le> uint d \<and> uint d \<le> 0xDFFF
      then (0x10000 + (uint c - 0xD800) * 0x400 + (uint d - 0xDC00)) # codePoints s
      else uint c # codePoints (d # s))"

definition isSurrogate :: "int \<Rightarrow> bool" where
  "isSurrogate cp = (0xD800 \<le> cp \<and> cp \<le> 0xDFFF)"

definition utf16 :: "int \<Rightarrow> jsstring" where
  \<comment> \<open>the code units of a code point\<close>
  "utf16 cp =
     (if cp < 0x10000 then [word_of_int cp]
      else [word_of_int (0xD800 + (cp - 0x10000) div 0x400),
            word_of_int (0xDC00 + (cp - 0x10000) mod 0x400)])"

definition digitOf :: "string \<Rightarrow> int \<Rightarrow> 16 word" where
  \<comment> \<open>the digit of a value in a list of digits\<close>
  "digitOf digits n = of_char (digits ! nat n)"

definition isUnescaped :: "int \<Rightarrow> bool" where
  \<comment> \<open>the code points that a URI may hold as they are: letters, digits and
     \<open>; / ? : @ & = + $ , - _ . ! ~ * ' ( ) #\<close>\<close>
  "isUnescaped cp =
     ((0x41 \<le> cp \<and> cp \<le> 0x5A) \<or> (0x61 \<le> cp \<and> cp \<le> 0x7A) \<or> (0x30 \<le> cp \<and> cp \<le> 0x39)
      \<or> cp \<in> set [0x3B, 0x2F, 0x3F, 0x3A, 0x40, 0x26, 0x3D, 0x2B, 0x24, 0x2C,
                      0x2D, 0x5F, 0x2E, 0x21, 0x7E, 0x2A, 0x27, 0x28, 0x29, 0x23])"

fun utf8Value :: "int list \<Rightarrow> int option" where
  \<comment> \<open>the code point that a sequence of octets stands for in UTF-8\<close>
  "utf8Value [a] = (if 0 \<le> a \<and> a < 0x80 then Some a else None)"
| "utf8Value [a, b] =
     (if 0xC0 \<le> a \<and> a < 0xE0 \<and> 0x80 \<le> b \<and> b < 0xC0
      then Some ((a - 0xC0) * 0x40 + (b - 0x80)) else None)"
| "utf8Value [a, b, c] =
     (if 0xE0 \<le> a \<and> a < 0xF0 \<and> 0x80 \<le> b \<and> b < 0xC0 \<and> 0x80 \<le> c \<and> c < 0xC0
      then Some (((a - 0xE0) * 0x40 + (b - 0x80)) * 0x40 + (c - 0x80)) else None)"
| "utf8Value [a, b, c, d] =
     (if 0xF0 \<le> a \<and> a < 0xF8 \<and> 0x80 \<le> b \<and> b < 0xC0 \<and> 0x80 \<le> c \<and> c < 0xC0
         \<and> 0x80 \<le> d \<and> d < 0xC0
      then Some ((((a - 0xF0) * 0x40 + (b - 0x80)) * 0x40 + (c - 0x80)) * 0x40 + (d - 0x80))
      else None)"
| "utf8Value _ = None"

definition uriEscape :: "int \<Rightarrow> jsstring" where
  \<comment> \<open>a code point in a URI: kept, or \<open>%XX\<close> for each of its octets in UTF-8\<close>
  "uriEscape cp =
     (if isUnescaped cp then [word_of_int cp]
      else concat (map (\<lambda>b. [0x25, digitOf ''0123456789ABCDEF'' (b div 16),
                                   digitOf ''0123456789ABCDEF'' (b mod 16)]) (utf8 cp)))"

definition percentEncode :: "jsstring \<Rightarrow> jsstring" where
  "percentEncode s = concat (map uriEscape (codePoints s))"

definition jsonEscape :: "int \<Rightarrow> jsstring" where
  \<comment> \<open>a code point in a JSON string: a backslash and a letter for the characters of the
     table, a backslash, \<open>u\<close> and four digits for the other control characters and for a
     lone surrogate, the code point itself otherwise\<close>
  "jsonEscape cp =
     (case map_of [(0x08, js ''b''), (0x09, js ''t''), (0x0A, js ''n''), (0x0C, js ''f''),
                   (0x0D, js ''r''), (0x22, [0x22]), (0x5C, [0x5C])] cp of
        Some e \<Rightarrow> 0x5C # e
      | None \<Rightarrow>
          if cp < 0x20 \<or> isSurrogate cp
          then 0x5C # js ''u''
               @ map (\<lambda>d. digitOf ''0123456789abcdef'' (cp div d mod 16)) [0x1000, 0x100, 0x10, 1]
          else utf16 cp)"

definition jsonQuote :: "jsstring \<Rightarrow> jsstring" where
  "jsonQuote s = [0x22] @ concat (map jsonEscape (codePoints s)) @ [0x22]"

fun memberLines :: "jsobject \<Rightarrow> jsstring" where
  \<comment> \<open>one line for each name, at four spaces, with a comma after all but the last\<close>
  "memberLines [] = []"
| "memberLines [p] =
     js ''    '' @ jsonQuote (fst p) @ js '': '' @ jsonQuote (snd p) @ [0x0A]"
| "memberLines (p # q # ps) =
     js ''    '' @ jsonQuote (fst p) @ js '': '' @ jsonQuote (snd p) @ js '','' @ [0x0A]
     @ memberLines (q # ps)"

definition document :: "jsobject \<Rightarrow> jsstring" where
  \<comment> \<open>the import map as a JSON text indented by two spaces\<close>
  "document m =
     js ''{'' @ [0x0A]
     @ js ''  '' @ jsonQuote (js ''imports'') @ js '': ''
     @ (if m = [] then js ''{}'' else js ''{'' @ [0x0A] @ memberLines m @ js ''  }'')
     @ [0x0A] @ js ''}''"

definition layout :: "jsobject \<Rightarrow> jsstring" where
  \<comment> \<open>the document \<open>{ "imports": { name: url, ... } }\<close> indented by two spaces: one
     line for each name, at four spaces\<close>
  "layout m =
     js ''{'' @ [0x0A] @ js ''  '' @ [0x22] @ js ''imports'' @ [0x22] @ js '': ''
     @ (if m = [] then js ''{}''
        else js ''{'' @ [0x0A]
             @ join (js '','' @ [0x0A])
                 (map (\<lambda>(k, v). js ''    '' @ QuoteJSONString k @ js '': '' @ QuoteJSONString v) m)
             @ [0x0A] @ js ''  }'')
     @ [0x0A] @ js ''}''"

section \<open>What \<open>semver\<close> answers on some specifiers\<close>

text \<open>
  The answers of \<open>semver\<close> 7 on the specifiers used as examples below: \<open>valid\<close> gives a
  version back without a leading \<open>v\<close>; \<open>validRange\<close> gives a range back as the
  conjunction of comparators it stands for, and \<open>*\<close> for the empty range and for \<open>*\<close>;
  both give \<open>null\<close> on a string that is neither. A version is a range too, but the
  program asks \<open>validRange\<close> only where \<open>valid\<close> gave \<open>null\<close>. The table lists these
  versions and ranges only: it is used at them, and at strings that are neither a version
  nor a range (\<open>latest\<close>, a URL, a lone surrogate).
\<close>

definition semver7_valid :: "jsstring \<Rightarrow> jsstring option" where
  "semver7_valid s =
     (if s = js ''1.2.3'' then Some (js ''1.2.3'')
      else if s = js ''v1.2.3'' then Some (js ''1.2.3'')
      else if s = js ''1.0.0'' then Some (js ''1.0.0'')
      else if s = js ''2.0.0'' then Some (js ''2.0.0'')
      else None)"

definition semver7_validRange :: "jsstring \<Rightarrow> jsstring option" where
  "semver7_validRange s =
     (if s = js ''^4.17.0'' then Some (js ''>=4.17.0 <5.0.0-0'')
      else if s = js ''~1.2.3'' then Some (js ''>=1.2.3 <1.3.0-0'')
      else if s = js ''>=1.0.0'' then Some (js ''>=1.0.0'')
      else if s = [] then Some (js ''*'')
      else if s = js ''*'' then Some (js ''*'')
      else None)"

definition semver7 :: semver where
  "semver7 = \<lparr>valid = semver7_valid, validRange = semver7_validRange\<rparr>"

definition manifest :: "jsobject \<Rightarrow> PackageJson" where
  \<comment> \<open>a manifest with the field \<open>dependencies\<close> only\<close>
  "manifest deps =
     \<lparr>dependencies = Some deps, devDependencies = None,
      peerDependencies = None, optionalDependencies = None\<rparr>"

section \<open>Assignment to a property\<close>

lemma keys_insertIndex: "fst ` set (insertIndex n p obj) = insert (fst p) (fst ` set obj)"
  by (induction obj) (auto split: option.splits)

lemma set_insertIndex: "set (insertIndex n p obj) = insert p (set obj)"
  by (induction obj) (auto split: option.splits)

lemma distinct_insertIndex:
  "fst p \<notin> fst ` set obj \<Longrightarrow> distinct (map fst obj) \<Longrightarrow> distinct (map fst (insertIndex n p obj))"
proof (induction obj)
  case Nil
  then show ?case by simp
next
  case (Cons q qs)
  have "fst q \<notin> fst ` set (insertIndex n p qs)"
    using Cons.prems by (auto simp: keys_insertIndex)
  with Cons show ?case by (auto split: option.splits)
qed

lemma map_of_insertIndex:
  "k \<notin> fst ` set obj \<Longrightarrow> map_of (insertIndex n (k, v) obj) = (map_of obj)(k \<mapsto> v)"
proof (induction obj)
  case Nil
  then show ?case by simp
next
  case (Cons q qs)
  then have "fst q \<noteq> k" and "k \<notin> fst ` set qs" by auto
  with Cons.IH show ?case
    by (cases q) (auto split: option.splits simp: fun_upd_twist)
qed

lemma map_of_append_new:
  "k \<notin> fst ` set obj \<Longrightarrow> map_of (obj @ [(k, v)]) = (map_of obj)(k \<mapsto> v)"
  by (induction obj) (auto simp: fun_upd_twist)

lemma keys_update: "fst ` set (AList.update k v obj) = insert k (fst ` set obj)"
  by (induction obj) auto

lemma keys_assign: "fst ` set (assign obj k v) = insert k (fst ` set obj)"
  unfolding assign_def
  by (simp add: keys_insertIndex keys_update split: option.splits)

lemma distinct_assign:
  "distinct (map fst obj) \<Longrightarrow> distinct (map fst (assign obj k v))"
  unfolding assign_def
  by (simp add: distinct_insertIndex distinct_update split: option.splits)

lemma map_of_assign: "map_of (assign obj k v) = (map_of obj)(k \<mapsto> v)"
proof (cases "k \<in> fst ` set obj")
  case True
  then show ?thesis by (simp add: assign_def update_conv')
next
  case False
  then show ?thesis
    using map_of_insertIndex [OF False] map_of_append_new [OF False]
    by (simp add: assign_def split: option.splits del: map_of_append)
qed


section \<open>What a run stores and what it prints\<close>

lemma addImport_cases:
  obtains (skip) w where "importURL sv cdn (fst e) (snd e) = Inl w"
      and "addImport sv cdn e st = Inr (fst st, snd st @ [w])"
    | (throw) err where "importURL sv cdn (fst e) (snd e) = Inr (Inl err)"
      and "addImport sv cdn e st = Inl err"
    | (store) url where "importURL sv cdn (fst e) (snd e) = Inr (Inr url)"
      and "addImport sv cdn e st = Inr (assign (fst st) (fst e) url, snd st)"
proof (cases "importURL sv cdn (fst e) (snd e)")
  case (Inl w)
  then show ?thesis using skip by (simp add: addImport_def)
next
  case (Inr r)
  then show ?thesis using throw store by (cases r) (simp_all add: addImport_def)
qed

lemma addImports_append:
  "addImports sv cdn (xs @ ys) st =
     (case addImports sv cdn xs st of Inl e \<Rightarrow> Inl e | Inr st' \<Rightarrow> addImports sv cdn ys st')"
  by (induction xs arbitrary: st) (auto split: sum.splits)

lemma getImportsFrom_entries:
  "getImportsFrom sv p keys cdn st = addImports sv cdn (entries p keys) st"
proof (induction keys arbitrary: st)
  case Nil
  then show ?case by (simp add: entries_def)
next
  case (Cons k keys)
  have e: "entries p (k # keys) = (case field p k of None \<Rightarrow> [] | Some deps \<Rightarrow> deps) @ entries p keys"
    by (simp add: entries_def)
  show ?case
    unfolding e addImports_append
    by (simp add: Cons.IH split: option.splits sum.splits)
qed

lemma map_add_single: "m ++ ([k \<mapsto> u] ++ w) = m(k \<mapsto> u) ++ w"
  by (rule ext) (simp add: map_add_def split: option.splits)

lemma addImports_state:
  "addImports sv cdn es st = Inr st' \<Longrightarrow>
     map_of (fst st') = map_of (fst st) ++ map_of (rev (writes sv cdn es))
     \<and> snd st' = snd st @ warnings sv cdn es"
proof (induction es arbitrary: st)
  case Nil
  then show ?case by simp
next
  case (Cons e es)
  show ?case
  proof (cases e st rule: addImport_cases [of sv cdn])
    case (skip w)
    with Cons.prems have "addImports sv cdn es (fst st, snd st @ [w]) = Inr st'" by simp
    from Cons.IH [OF this] skip(1) show ?thesis by simp
  next
    case (throw err)
    with Cons.prems show ?thesis by simp
  next
    case (store url)
    with Cons.prems have "addImports sv cdn es (assign (fst st) (fst e) url, snd st) = Inr st'"
      by simp
    from Cons.IH [OF this]
    have "map_of (fst st') = map_of (assign (fst st) (fst e) url) ++ map_of (rev (writes sv cdn es))"
      and w: "snd st' = snd st @ warnings sv cdn es"
      by simp_all
    then have "map_of (fst st') = (map_of (fst st))(fst e \<mapsto> url) ++ map_of (rev (writes sv cdn es))"
      by (simp only: map_of_assign)
    also have "\<dots> = map_of (fst st) ++ map_of (rev (writes sv cdn (e # es)))"
      using store(1) by (simp add: map_add_single)
    finally show ?thesis using w store(1) by simp
  qed
qed

lemma addImports_distinct:
  "addImports sv cdn es st = Inr st' \<Longrightarrow> distinct (map fst (fst st)) \<Longrightarrow>
     distinct (map fst (fst st'))"
proof (induction es arbitrary: st)
  case Nil
  then show ?case by simp
next
  case (Cons e es)
  show ?case
  proof (cases e st rule: addImport_cases [of sv cdn])
    case (skip w)
    with Cons.prems have "addImports sv cdn es (fst st, snd st @ [w]) = Inr st'" by simp
    from Cons.IH [OF this] Cons.prems(2) show ?thesis by simp
  next
    case (throw err)
    with Cons.prems show ?thesis by simp
  next
    case (store url)
    with Cons.prems have "addImports sv cdn es (assign (fst st) (fst e) url, snd st) = Inr st'"
      by simp
    from Cons.IH [OF this] Cons.prems(2) show ?thesis
      by (simp add: distinct_assign)
  qed
qed

lemma addImports_throws:
  "(\<exists>err. addImports sv cdn es st = Inl err) \<longleftrightarrow> (\<exists>e \<in> set es. throws sv cdn e)"
proof (induction es arbitrary: st)
  case Nil
  then show ?case by simp
next
  case (Cons e es)
  show ?case
  proof (cases e st rule: addImport_cases [of sv cdn])
    case (skip w)
    then show ?thesis using Cons.IH by (simp add: throws_def)
  next
    case (throw err)
    then show ?thesis by (simp add: throws_def)
  next
    case (store url)
    then show ?thesis using Cons.IH by (simp add: throws_def)
  qed
qed

lemma addImports_total:
  "\<forall>e \<in> set es. \<not> throws sv cdn e \<Longrightarrow> \<exists>st'. addImports sv cdn es st = Inr st'"
  using addImports_throws [of sv cdn es st]
  by (cases "addImports sv cdn es st") auto



lemma writes_mem:
  "(k, u) \<in> set (writes sv cdn es) \<longleftrightarrow> (\<exists>v. (k, v) \<in> set es \<and> importURL sv cdn k v = Inr (Inr u))"
  by (induction es) (auto split: sum.splits)


lemma getImports_result:
  assumes "getImports sv packageJson keys cdn = Inr (imps, ws)"
  shows "map_of imps = map_of (rev (writes sv cdn (entries packageJson keys)))"
    and "ws = warnings sv cdn (entries packageJson keys)"
    and "distinct (map fst imps)"
proof -
  from assms have r: "addImports sv cdn (entries packageJson keys) ([], []) = Inr (imps, ws)"
    by (simp add: getImports_def getImportsFrom_entries)
  from addImports_state [OF r] show "map_of imps = map_of (rev (writes sv cdn (entries packageJson keys)))"
    and "ws = warnings sv cdn (entries packageJson keys)"
    by simp_all
  from addImports_distinct [OF r] show "distinct (map fst imps)" by simp
qed

lemma getImports_keys:
  assumes "getImports sv packageJson keys cdn = Inr (imps, ws)"
  shows "fst ` set imps = fst ` set (writes sv cdn (entries packageJson keys))"
proof -
  have "fst ` set imps = dom (map_of imps)" by (simp add: dom_map_of_conv_image_fst)
  also have "\<dots> = dom (map_of (rev (writes sv cdn (entries packageJson keys))))"
    by (simp only: getImports_result(1) [OF assms])
  also have "\<dots> = fst ` set (writes sv cdn (entries packageJson keys))"
    by (simp add: dom_map_of_conv_image_fst)
  finally show ?thesis .
qed


section \<open>Type only dependencies\<close>

lemma importURL_types: "startsWith key (js ''@types'') \<Longrightarrow> importURL sv cdn key value = Inl (TypeOnly key)"
  by (simp add: importURL_def)

lemma writes_not_types:
  assumes "startsWith key (js ''@types'')"
  shows "key \<notin> fst ` set (writes sv cdn es)"
proof
  assume "key \<in> fst ` set (writes sv cdn es)"
  then obtain u where "(key, u) \<in> set (writes sv cdn es)" by auto
  then obtain v where "importURL sv cdn key v = Inr (Inr u)" by (auto simp: writes_mem)
  with importURL_types [OF assms, of sv cdn v] show False by simp
qed

text \<open>
  Claim C6. A dependency whose name begins with \<open>@types\<close> (such as \<open>@types/foo\<close>) is
  skipped with the warning for a type only dependency, whatever its version specifier is
  and whatever \<open>semver\<close> says about it, and no run has that name in the mapping it
  returns.
\<close>

theorem type_only_dependency_skipped:
  assumes "startsWith key (js ''@types'')"
  shows "addImport sv cdn (key, value) st = Inr (fst st, snd st @ [TypeOnly key])
         \<and> (\<forall>packageJson keys imps ws.
               getImports sv packageJson keys cdn = Inr (imps, ws) \<longrightarrow> key \<notin> fst ` set imps)"
proof (intro conjI allI impI)
  show "addImport sv cdn (key, value) st = Inr (fst st, snd st @ [TypeOnly key])"
    by (simp add: addImport_def importURL_types [OF assms])
next
  fix packageJson keys imps ws
  assume "getImports sv packageJson keys cdn = Inr (imps, ws)"
  from getImports_keys [OF this] writes_not_types [OF assms]
  show "key \<notin> fst ` set imps" by simp
qed

theorem type_only_dependency_skipped_witness:
  "startsWith (js ''@types/foo'') (js ''@types'')
   \<and> addImport semver7 Skypack (js ''@types/foo'', js ''1.2.3'') ([], [])
       = Inr ([], [TypeOnly (js ''@types/foo'')])
   \<and> getImports semver7 (manifest [(js ''@types/foo'', js ''1.2.3''), (js ''foo'', js ''1.2.3'')])
         [Dependencies] Skypack
       = Inr ([(js ''foo'', js ''https://cdn.skypack.dev/foo@1.2.3'')], [TypeOnly (js ''@types/foo'')])
   \<and> js ''@types/foo'' \<notin> fst ` set [(js ''foo'', js ''https://cdn.skypack.dev/foo@1.2.3'')]"
proof -
  have h: "startsWith (js ''@types/foo'') (js ''@types'')"
    by (simp add: startsWith_def js_def)
  have g: "getImports semver7 (manifest [(js ''@types/foo'', js ''1.2.3''), (js ''foo'', js ''1.2.3'')])
         [Dependencies] Skypack
       = Inr ([(js ''foo'', js ''https://cdn.skypack.dev/foo@1.2.3'')], [TypeOnly (js ''@types/foo'')])"
    by code_simp
  note t = type_only_dependency_skipped [OF h, of semver7 Skypack "js ''1.2.3''" "([], [])"]
  from t have a: "addImport semver7 Skypack (js ''@types/foo'', js ''1.2.3'') ([], [])
       = Inr ([], [TypeOnly (js ''@types/foo'')])" by simp
  from t g have b: "js ''@types/foo'' \<notin> fst ` set [(js ''foo'', js ''https://cdn.skypack.dev/foo@1.2.3'')]"
    by blast
  from h a g b show ?thesis by blast
qed

section \<open>The prefix test and the test of the first character\<close>

lemma startsWith_iff: "startsWith s p \<longleftrightarrow> (\<exists>rest. s = p @ rest)"
proof
  assume "startsWith s p"
  then have "s = p @ drop (length p) s"
    unfolding startsWith_def by (metis append_take_drop_id)
  then show "\<exists>rest. s = p @ rest" ..
next
  assume "\<exists>rest. s = p @ rest"
  then show "startsWith s p" by (auto simp: startsWith_def)
qed

lemma importURL_TypeOnly_iff:
  "importURL sv cdn key value = Inl (TypeOnly k) \<longleftrightarrow> startsWith key (js ''@types'') \<and> k = key"
  by (auto simp: importURL_def Let_def)

text \<open>
  Claim C10. The test for a type only dependency is a test of the prefix \<open>@types\<close> of
  the name and nothing more: a name that merely starts with these six characters, such as
  \<open>@typescript-eslint/parser\<close> or \<open>@types-helper\<close>, is skipped with the warning and is
  in no returned mapping, for every version specifier; and the warning is given for these
  names only.
\<close>

theorem types_prefix_skipped:
  "addImport sv cdn (js ''@types'' @ rest, value) st
     = Inr (fst st, snd st @ [TypeOnly (js ''@types'' @ rest)])
   \<and> (\<forall>packageJson keys imps ws.
         getImports sv packageJson keys cdn = Inr (imps, ws) \<longrightarrow>
           js ''@types'' @ rest \<notin> fst ` set imps)
   \<and> (importURL sv cdn key value = Inl (TypeOnly key) \<longleftrightarrow> (\<exists>rest. key = js ''@types'' @ rest))"
proof (intro conjI allI impI)
  have p: "startsWith (js ''@types'' @ rest) (js ''@types'')"
    by (simp add: startsWith_def)
  show "addImport sv cdn (js ''@types'' @ rest, value) st
     = Inr (fst st, snd st @ [TypeOnly (js ''@types'' @ rest)])"
    by (simp add: addImport_def importURL_types [OF p])
  show "importURL sv cdn key value = Inl (TypeOnly key) \<longleftrightarrow> (\<exists>rest. key = js ''@types'' @ rest)"
    by (simp add: importURL_TypeOnly_iff startsWith_iff)
  fix packageJson keys imps ws
  assume "getImports sv packageJson keys cdn = Inr (imps, ws)"
  from getImports_keys [OF this] writes_not_types [OF p]
  show "js ''@types'' @ rest \<notin> fst ` set imps" by simp
qed

theorem types_prefix_skipped_witness:
  "addImport semver7 Esm (js ''@typescript-eslint/parser'', js ''1.2.3'') ([], [])
     = Inr ([], [TypeOnly (js ''@typescript-eslint/parser'')])
   \<and> addImport semver7 Esm (js ''@types-helper'', js ''1.2.3'') ([], [])
     = Inr ([], [TypeOnly (js ''@types-helper'')])
   \<and> getImports semver7
         (manifest [(js ''@typescript-eslint/parser'', js ''1.2.3''), (js ''@types-helper'', js ''1.2.3''),
                    (js ''@type'', js ''1.2.3'')])
         [Dependencies] Esm
       = Inr ([(js ''@type'', js ''https://esm.sh/@type@1.2.3'')],
              [TypeOnly (js ''@typescript-eslint/parser''), TypeOnly (js ''@types-helper'')])
   \<and> js ''@typescript-eslint/parser'' \<notin> fst ` set [(js ''@type'', js ''https://esm.sh/@type@1.2.3'')]
   \<and> js ''@types-helper'' \<notin> fst ` set [(js ''@type'', js ''https://esm.sh/@type@1.2.3'')]"
proof -
  have e1: "js ''@typescript-eslint/parser'' = js ''@types'' @ js ''cript-eslint/parser''"
    and e2: "js ''@types-helper'' = js ''@types'' @ js ''-helper''"
    by (simp_all add: js_def)
  have g: "getImports semver7
         (manifest [(js ''@typescript-eslint/parser'', js ''1.2.3''), (js ''@types-helper'', js ''1.2.3''),
                    (js ''@type'', js ''1.2.3'')])
         [Dependencies] Esm
       = Inr ([(js ''@type'', js ''https://esm.sh/@type@1.2.3'')],
              [TypeOnly (js ''@typescript-eslint/parser''), TypeOnly (js ''@types-helper'')])"
    by code_simp
  note t1 = types_prefix_skipped [of semver7 Esm "js ''cript-eslint/parser''" "js ''1.2.3''" "([], [])",
      folded e1]
  note t2 = types_prefix_skipped [of semver7 Esm "js ''-helper''" "js ''1.2.3''" "([], [])", folded e2]
  from t1 have a1: "addImport semver7 Esm (js ''@typescript-eslint/parser'', js ''1.2.3'') ([], [])
     = Inr ([], [TypeOnly (js ''@typescript-eslint/parser'')])" by simp
  from t2 have a2: "addImport semver7 Esm (js ''@types-helper'', js ''1.2.3'') ([], [])
     = Inr ([], [TypeOnly (js ''@types-helper'')])" by simp
  from t1 g have b1: "js ''@typescript-eslint/parser'' \<notin> fst ` set [(js ''@type'', js ''https://esm.sh/@type@1.2.3'')]"
    by blast
  from t2 g have b2: "js ''@types-helper'' \<notin> fst ` set [(js ''@type'', js ''https://esm.sh/@type@1.2.3'')]"
    by blast
  from a1 a2 g b1 b2 show ?thesis by blast
qed

lemma not_types_local:
  "c = 0x2E \<or> c = 0x7E \<or> c = 0x2F \<Longrightarrow> \<not> startsWith (c # name) (js ''@types'')"
  by (auto simp: startsWith_def js_def)

text \<open>
  Claim C4. An entry whose version specifier is neither a version nor a range for
  \<open>semver\<close>, is not empty and not \<open>*\<close>, and does not start with \<open>git+\<close> or \<open>git:\<close>,
  is skipped with the warning for a local path as soon as its name begins with a dot, a
  tilde or a slash; the version specifier plays no further part.
\<close>

theorem local_path_decided_by_name:
  assumes "\<not> truthy (valid sv value)" and "\<not> truthy (validRange sv value)"
    and "value \<noteq> []" and "value \<noteq> js ''*''"
    and "\<not> startsWith value (js ''git+'')" and "\<not> startsWith value (js ''git:'')"
    and "c = 0x2E \<or> c = 0x7E \<or> c = 0x2F"
  shows "importURL sv cdn (c # name) value = Inl (LocalPath value (c # name))
         \<and> addImport sv cdn (c # name, value) st
             = Inr (fst st, snd st @ [LocalPath value (c # name)])"
proof -
  have "importURL sv cdn (c # name) value = Inl (LocalPath value (c # name))"
    using assms not_types_local [OF assms(7), of name]
    by (auto simp: importURL_def Let_def includes_js_def charAt0_def js_def)
  then show ?thesis by (simp add: addImport_def)
qed

theorem local_path_decided_by_name_witness:
  "\<not> truthy (valid semver7 (js ''https://example.com/lib.tgz''))
   \<and> \<not> truthy (validRange semver7 (js ''https://example.com/lib.tgz''))
   \<and> js ''https://example.com/lib.tgz'' \<noteq> []
   \<and> js ''https://example.com/lib.tgz'' \<noteq> js ''*''
   \<and> \<not> startsWith (js ''https://example.com/lib.tgz'') (js ''git+'')
   \<and> \<not> startsWith (js ''https://example.com/lib.tgz'') (js ''git:'')
   \<and> addImport semver7 Jspm (js ''./lib'', js ''https://example.com/lib.tgz'') ([], [])
       = Inr ([], [LocalPath (js ''https://example.com/lib.tgz'') (js ''./lib'')])"
proof -
  have h1: "\<not> truthy (valid semver7 (js ''https://example.com/lib.tgz''))"
    and h2: "\<not> truthy (validRange semver7 (js ''https://example.com/lib.tgz''))"
    and h3: "js ''https://example.com/lib.tgz'' \<noteq> []"
    and h4: "js ''https://example.com/lib.tgz'' \<noteq> js ''*''"
    and h5: "\<not> startsWith (js ''https://example.com/lib.tgz'') (js ''git+'')"
    and h6: "\<not> startsWith (js ''https://example.com/lib.tgz'') (js ''git:'')"
    by (simp_all add: semver7_def semver7_valid_def semver7_validRange_def truthy_def
                      startsWith_def js_def)
  have k: "js ''./lib'' = 0x2E # js ''/lib''" by (simp add: js_def)
  have h7: "(0x2E :: 16 word) = 0x2E \<or> (0x2E :: 16 word) = 0x7E \<or> (0x2E :: 16 word) = 0x2F" by simp
  from local_path_decided_by_name [OF h1 h2 h3 h4 h5 h6 h7, of Jspm "js ''/lib''" "([], [])", folded k]
    h1 h2 h3 h4 h5 h6
  show ?thesis by simp
qed

section \<open>The last write wins\<close>







section \<open>When \<open>encodeURI\<close> throws\<close>

lemma unescaped_ascii: "includes_js unescapedURISet c \<Longrightarrow> c < 0x80"
  unfolding includes_js_def unescapedURISet_def uriReserved_def uriAlpha_def DecimalDigit_def
    uriMark_def js_def
  by auto

lemma unescaped_not_surrogate:
  "includes_js unescapedURISet c \<Longrightarrow> \<not> isLeadingSurrogate c \<and> \<not> isTrailingSurrogate c"
proof -
  assume "includes_js unescapedURISet c"
  then have "c < 0x80" by (rule unescaped_ascii)
  then show ?thesis
    unfolding isLeadingSurrogate_def isTrailingSurrogate_def
    by (auto simp: word_le_nat_alt word_less_nat_alt)
qed

lemma lead_not_trail: "isLeadingSurrogate c \<Longrightarrow> \<not> isTrailingSurrogate c"
  unfolding isLeadingSurrogate_def isTrailingSurrogate_def
  by (auto simp: word_le_nat_alt)

lemma prepend_Inr_iff: "(\<exists>e. prepend p r = Inr e) \<longleftrightarrow> (\<exists>e. r = Inr e)"
  by (cases r) (simp_all add: prepend_def)

lemma encodeURI_wellFormed: "(\<exists>e. encodeURI s = Inr e) \<longleftrightarrow> wellFormed s"
proof (induction s rule: encodeURI.induct)
  case 1
  then show ?case by simp
next
  case (2 c)
  then show ?case using unescaped_not_surrogate [of c] by auto
next
  case (3 c d s)
  then show ?case
    using unescaped_not_surrogate [of c] lead_not_trail [of c]
    by (auto simp: prepend_Inr_iff)
qed

lemma encodeURI_error: "encodeURI s = Inl URIError \<longleftrightarrow> \<not> wellFormed s"
proof -
  have "encodeURI s = Inl URIError \<longleftrightarrow> \<not> (\<exists>e. encodeURI s = Inr e)"
    by (cases "encodeURI s") (auto intro: error.exhaust)
  then show ?thesis by (simp add: encodeURI_wellFormed)
qed

lemma cdns_total:
  "(\<exists>url. cdns cdn pkg version = Inr url) \<longleftrightarrow> (truthy version \<longrightarrow> wellFormed (the version))"
  by (cases cdn) (auto simp: skypack_def esm_def jspm_def unpkg_def prepend_Inr_iff encodeURI_wellFormed)


lemma cdns_error: "cdns cdn pkg version = Inl e \<Longrightarrow> truthy version \<and> \<not> wellFormed (the version)"
  using cdns_total [of cdn pkg version] by auto

lemma importURL_throws:
  assumes "importURL sv cdn key value = Inr (Inl e)"
  shows "(truthy (valid sv value) \<and> \<not> wellFormed (the (valid sv value)))
       \<or> (truthy (validRange sv value) \<and> \<not> wellFormed (the (validRange sv value)))
       \<or> \<not> wellFormed value"
  using assms
  by (auto simp: importURL_def Let_def split: if_splits dest!: cdns_error simp: truthy_def)

lemma throws_wellFormed:
  assumes "\<forall>s r. valid sv s = Some r \<longrightarrow> wellFormed r"
    and "\<forall>s r. validRange sv s = Some r \<longrightarrow> wellFormed r"
    and "wellFormed (snd e)"
  shows "\<not> throws sv cdn e"
proof
  assume "throws sv cdn e"
  then obtain err where "importURL sv cdn (fst e) (snd e) = Inr (Inl err)"
    by (auto simp: throws_def split: sum.splits)
  from importURL_throws [OF this] assms show False
    by (auto simp: truthy_def split: option.splits)
qed

lemma writes_warnings_length:
  "\<forall>e \<in> set es. \<not> throws sv cdn e \<Longrightarrow>
     length (writes sv cdn es) + length (warnings sv cdn es) = length es"
  by (induction es) (auto simp: throws_def split: sum.splits)

lemma semver7_wellFormed:
  "\<forall>s r. valid semver7 s = Some r \<longrightarrow> wellFormed r"
  "\<forall>s r. validRange semver7 s = Some r \<longrightarrow> wellFormed r"
  by (auto simp: semver7_def semver7_valid_def semver7_validRange_def js_def
                 isLeadingSurrogate_def isTrailingSurrogate_def split: if_splits)


section \<open>The written document\<close>

lemma join_indent:
  assumes "xs \<noteq> []"
  shows "ind @ join (sep @ ind) xs = join sep (map (\<lambda>x. ind @ x) xs)"
proof (cases xs)
  case Nil
  with assms show ?thesis by simp
next
  case (Cons a list)
  have "(@) (sep @ ind) = (\<lambda>x. sep @ ind @ x)" by (rule ext) simp
  then show ?thesis by (simp add: Cons join_def comp_def)
qed

lemma members_record:
  "SerializeJSONMembers gap ind (map (\<lambda>(k, v). (k, String v)) m)
     = map (\<lambda>(k, v). QuoteJSONString k @ js '':'' @ (if gap \<noteq> [] then js '' '' else [])
                        @ QuoteJSONString v) m"
  by (induction m) (auto)

lemma stringify_importMap:
  "JSON_stringify (importMapValue (importMap m)) (js ''  '') = layout m"
proof -
  have q: "QuoteJSONString (js ''imports'') = [0x22] @ js ''imports'' @ [0x22]"
    by (simp add: QuoteJSONString_def js_def quoteUnit_def isLeadingSurrogate_def isTrailingSurrogate_def)
  have g: "js ''  '' \<noteq> []" by (simp add: js_def)
  have c: "js '':'' @ js '' '' = js '': ''" by (simp add: js_def)
  have inner: "SerializeJSONProperty (js ''  '') (js ''  '') (recordValue m)
     = (if m = [] then js ''{}''
        else js ''{'' @ [0x0A]
             @ join (js '','' @ [0x0A])
                 (map (\<lambda>(k, v). js ''    '' @ QuoteJSONString k @ js '': '' @ QuoteJSONString v) m)
             @ [0x0A] @ js ''  }'')"
  proof (cases "m = []")
    case True
    then show ?thesis by (simp add: recordValue_def)
  next
    case False
    let ?xs = "map (\<lambda>(k, v). QuoteJSONString k @ js '':'' @ js '' '' @ QuoteJSONString v) m"
    have i: "js ''  '' @ js ''  '' = js ''    ''" by (simp add: js_def)
    have c: "js '':'' @ js '' '' = js '': ''" by (simp add: js_def)
    have b: "js ''  }'' = js ''  '' @ js ''}''" by (simp add: js_def)
    from False have ne: "?xs \<noteq> []" by simp
    have "js ''    '' @ join (js '','' @ [0x0A] @ js ''    '') ?xs
            = join (js '','' @ [0x0A]) (map (\<lambda>x. js ''    '' @ x) ?xs)"
      using join_indent [OF ne, of "js ''    ''" "js '','' @ [0x0A]"] by simp
    also have "map (\<lambda>x. js ''    '' @ x) ?xs
            = map (\<lambda>(k, v). js ''    '' @ QuoteJSONString k @ js '': '' @ QuoteJSONString v) m"
      using c by (auto simp: comp_def split_def)
    finally have j: "js ''    '' @ join (js '','' @ [0x0A] @ js ''    '') ?xs
            = join (js '','' @ [0x0A])
                (map (\<lambda>(k, v). js ''    '' @ QuoteJSONString k @ js '': '' @ QuoteJSONString v) m)" .
    show ?thesis
      using False ne g j
      by (simp add: recordValue_def members_record Let_def i b)
  qed
  show ?thesis
    unfolding JSON_stringify_def importMapValue_def layout_def importMap_def
    using g inner by (simp add: Let_def q join_def c)
qed

lemma main_layout:
  "main sv packageJson cdn dev optional peer
     = (case getImports sv packageJson (mainKeys dev optional peer) cdn of
          Inl e \<Rightarrow> Inl e
        | Inr st \<Rightarrow> Inr (layout (fst st), snd st))"
  by (simp add: main_def stringify_importMap Let_def split: sum.splits)


section \<open>Ranges and wildcards\<close>

lemma importURL_range:
  assumes "\<not> startsWith key (js ''@types'')" and "\<not> truthy (valid sv value)"
    and "truthy (validRange sv value)"
  shows "importURL sv cdn key value = Inr (cdns cdn key (validRange sv value))"
  using assms by (simp add: importURL_def Let_def)

text \<open>
  Claim C1, amended. For the manifest \<open>{"dependencies":{"lodash":"^4.17.0"}}\<close>, the
  CDN \<open>unpkg\<close> and the section \<open>dependencies\<close>, the URL of \<open>lodash\<close> holds the range
  that \<open>validRange\<close> returns for \<open>^4.17.0\<close>, passed through \<open>encodeURI\<close>, and not
  the specifier as it was written.
\<close>

theorem lodash_url_from_validRange:
  assumes "\<not> truthy (valid sv (js ''^4.17.0''))"
    and "validRange sv (js ''^4.17.0'') = Some r" and "r \<noteq> []"
    and "encodeURI r = Inr e"
  shows "getImports sv (manifest [(js ''lodash'', js ''^4.17.0'')]) [Dependencies] Unpkg
           = Inr ([(js ''lodash'', js ''https://unpkg.com/lodash@'' @ e)], [])
       \<and> main sv (manifest [(js ''lodash'', js ''^4.17.0'')]) Unpkg False False False
           = Inr (layout [(js ''lodash'', js ''https://unpkg.com/lodash@'' @ e)], [])"
proof -
  have n: "\<not> startsWith (js ''lodash'') (js ''@types'')"
    by (simp add: startsWith_def js_def)
  have t: "truthy (validRange sv (js ''^4.17.0''))"
    using assms(2,3) by (simp add: truthy_def)
  have c: "js ''https://unpkg.com/'' @ js ''lodash'' @ js ''@'' = js ''https://unpkg.com/lodash@''"
    by (simp add: js_def)
  have u: "importURL sv Unpkg (js ''lodash'') (js ''^4.17.0'')
             = Inr (Inr (js ''https://unpkg.com/lodash@'' @ e))"
    using assms(2,4) t by (simp add: importURL_range [OF n assms(1) t] unpkg_def prepend_def c)
  have a: "arrayIndex (js ''lodash'') = None"
    by (simp add: arrayIndex_def js_def isDigit_def)
  have g: "getImports sv (manifest [(js ''lodash'', js ''^4.17.0'')]) [Dependencies] Unpkg
           = Inr ([(js ''lodash'', js ''https://unpkg.com/lodash@'' @ e)], [])"
    by (simp add: getImports_def manifest_def addImport_def u assign_def a)
  have k: "mainKeys False False False = [Dependencies]" by (simp add: mainKeys_def)
  from g show ?thesis by (simp add: main_layout k)
qed

theorem lodash_url_from_validRange_witness:
  "getImports semver7 (manifest [(js ''lodash'', js ''^4.17.0'')]) [Dependencies] Unpkg
     = Inr ([(js ''lodash'', js ''https://unpkg.com/lodash@%3E=4.17.0%20%3C5.0.0-0'')], [])"
proof -
  have h1: "\<not> truthy (valid semver7 (js ''^4.17.0''))"
    by (simp add: semver7_def semver7_valid_def truthy_def js_def)
  have h2: "validRange semver7 (js ''^4.17.0'') = Some (js ''>=4.17.0 <5.0.0-0'')"
    by (simp add: semver7_def semver7_validRange_def)
  have h3: "js ''>=4.17.0 <5.0.0-0'' \<noteq> []" by (simp add: js_def)
  have h4: "encodeURI (js ''>=4.17.0 <5.0.0-0'') = Inr (js ''%3E=4.17.0%20%3C5.0.0-0'')"
    by code_simp
  have c: "js ''https://unpkg.com/lodash@'' @ js ''%3E=4.17.0%20%3C5.0.0-0''
             = js ''https://unpkg.com/lodash@%3E=4.17.0%20%3C5.0.0-0''"
    by (simp add: js_def)
  from lodash_url_from_validRange [OF h1 h2 h3 h4] show ?thesis by (simp only: c)
qed

theorem lodash_url_from_validRange_counterexample:
  "getImports semver7 (manifest [(js ''lodash'', js ''^4.17.0'')]) [Dependencies] Unpkg
     = Inr ([(js ''lodash'', js ''https://unpkg.com/lodash@%3E=4.17.0%20%3C5.0.0-0'')], [])
   \<and> getImports semver7 (manifest [(js ''lodash'', js ''^4.17.0'')]) [Dependencies] Unpkg
     \<noteq> Inr ([(js ''lodash'', js ''https://unpkg.com/lodash@%5E4.17.0'')], [])"
proof -
  have g: "getImports semver7 (manifest [(js ''lodash'', js ''^4.17.0'')]) [Dependencies] Unpkg
     = Inr ([(js ''lodash'', js ''https://unpkg.com/lodash@%3E=4.17.0%20%3C5.0.0-0'')], [])"
    by code_simp
  have d: "js ''https://unpkg.com/lodash@%3E=4.17.0%20%3C5.0.0-0'' \<noteq> js ''https://unpkg.com/lodash@%5E4.17.0''"
    by (simp add: js_def)
  from g d show ?thesis by simp
qed

lemma importURL_wildcard:
  assumes "\<not> startsWith key (js ''@types'')" and "\<not> truthy (valid sv value)"
    and "\<not> truthy (validRange sv value)" and "value = [] \<or> value = js ''*''"
  shows "importURL sv cdn key value = Inr (cdns cdn key None)"
  using assms by (auto simp: importURL_def Let_def)

text \<open>
  Claim C2, at the failing input. For the specifiers \<open>*\<close> and the empty string,
  \<open>validRange\<close> answers \<open>*\<close>, which is truthy: the branch of the range is taken, the
  URL is built with the version \<open>*\<close>, and the branch for the wildcard, which comes
  after it and would build the URL without a version, is not reached.
\<close>

theorem wildcard_takes_range_branch:
  "addImports semver7 Skypack [(js ''foo'', js ''*''), (js ''bar'', [])] ([], [])
     = Inr ([(js ''foo'', js ''https://cdn.skypack.dev/foo@*''),
             (js ''bar'', js ''https://cdn.skypack.dev/bar@*'')], [])
   \<and> cdns Skypack (js ''foo'') None = Inr (js ''https://cdn.skypack.dev/foo/'')"
  by code_simp

section \<open>What \<open>encodeURI\<close> returns\<close>

lemma hexDigit_unescaped:
  assumes "0 \<le> n" and "n < 16"
  shows "hexDigit n \<in> set unescapedURISet"
proof -
  from assms have "n \<in> {0, 1, 2, 3, 4, 5, 6, 7, 8, 9, 10, 11, 12, 13, 14, 15}" by simp arith
  then show ?thesis
    unfolding unescapedURISet_def uriReserved_def uriAlpha_def DecimalDigit_def uriMark_def
      js_def hexDigit_def
    by auto
qed

lemma percent_alphabet:
  assumes "0 \<le> b" and "b < 256"
  shows "set (percent b) \<subseteq> set unescapedURISet \<union> {0x25}"
proof -
  have "0 \<le> b div 16" and "b div 16 < 16" and "0 \<le> b mod 16" and "b mod 16 < 16"
    using assms by auto
  then show ?thesis
    by (simp add: percent_def hexDigit_unescaped)
qed

lemma utf8_octets:
  assumes "0 \<le> cp" and "cp < 0x110000"
  shows "\<forall>b \<in> set (utf8 cp). 0 \<le> b \<and> b < 256"
  using assms unfolding utf8_def by auto

lemma escaped_alphabet:
  assumes "0 \<le> cp" and "cp < 0x110000"
  shows "set (escaped cp) \<subseteq> set unescapedURISet \<union> {0x25}"
  using utf8_octets [OF assms] percent_alphabet
  unfolding escaped_def by auto

lemma uint_codepoint: "0 \<le> uint (c :: 16 word) \<and> uint c < 0x110000"
proof -
  have "uint c < 2 ^ LENGTH(16)" by (rule uint_lt2p)
  then show ?thesis by simp
qed

lemma pair_codepoint:
  assumes "isLeadingSurrogate c" and "isTrailingSurrogate d"
  shows "0 \<le> UTF16SurrogatePairToCodePoint c d \<and> UTF16SurrogatePairToCodePoint c d < 0x110000"
  using assms
  unfolding isLeadingSurrogate_def isTrailingSurrogate_def UTF16SurrogatePairToCodePoint_def
  by (auto simp: word_le_def)

lemma prepend_Inr: "prepend p r = Inr e \<Longrightarrow> \<exists>s. r = Inr s \<and> e = p @ s"
  by (cases r) (simp_all add: prepend_def)

lemma encodeURI_alphabet:
  "encodeURI s = Inr e \<Longrightarrow> set e \<subseteq> set unescapedURISet \<union> {0x25}"
proof (induction s arbitrary: e rule: encodeURI.induct)
  case 1
  then show ?case by simp
next
  case (2 c)
  then show ?case
    using escaped_alphabet [of "uint c"] uint_codepoint [of c]
    by (auto simp: includes_js_def split: if_splits)
next
  case (3 c d s)
  show ?case
  proof (cases "includes_js unescapedURISet c")
    case True
    with "3.prems" obtain t where "encodeURI (d # s) = Inr t" and "e = [c] @ t"
      by (auto dest: prepend_Inr)
    with "3.IH"(1) [OF True] True show ?thesis by (auto simp: includes_js_def)
  next
    case False
    note nu = False
    show ?thesis
    proof (cases "isLeadingSurrogate c")
      case True
      with nu "3.prems" have nt: "\<not> isTrailingSurrogate c" and td: "isTrailingSurrogate d"
        by (auto split: if_splits)
      with nu True "3.prems" obtain t where "encodeURI s = Inr t"
        and "e = escaped (UTF16SurrogatePairToCodePoint c d) @ t"
        by (auto dest: prepend_Inr)
      with "3.IH"(2) [OF nu nt True td] escaped_alphabet pair_codepoint [OF True td]
      show ?thesis by auto
    next
      case False
      with nu "3.prems" have nt: "\<not> isTrailingSurrogate c" by (auto split: if_splits)
      with nu False "3.prems" obtain t where "encodeURI (d # s) = Inr t"
        and "e = escaped (uint c) @ t"
        by (auto dest: prepend_Inr)
      with "3.IH"(3) [OF nu nt False] escaped_alphabet [of "uint c"] uint_codepoint [of c]
      show ?thesis by auto
    qed
  qed
qed

lemma encodeURI_unescaped:
  "set s \<subseteq> set unescapedURISet \<Longrightarrow> encodeURI s = Inr s"
  by (induction s rule: encodeURI.induct) (auto simp: includes_js_def prepend_def)


lemma cdns_None:
  "cdns Skypack pkg None = Inr (js ''https://cdn.skypack.dev/'' @ pkg @ js ''/'')"
  "cdns Esm pkg None = Inr (js ''https://esm.sh/'' @ pkg)"
  "cdns Jspm pkg None = Inr (js ''https://jspm.dev/npm:'' @ pkg)"
  "cdns Unpkg pkg None = Inr (js ''https://unpkg.com/'' @ pkg)"
  by (simp_all add: skypack_def esm_def jspm_def unpkg_def truthy_def)

lemma cdns_Some:
  assumes "version \<noteq> []" and "encodeURI version = Inr e"
  shows "cdns Skypack pkg (Some version) = Inr (js ''https://cdn.skypack.dev/'' @ pkg @ js ''@'' @ e)"
    and "cdns Esm pkg (Some version) = Inr (js ''https://esm.sh/'' @ pkg @ js ''@'' @ e)"
    and "cdns Jspm pkg (Some version) = Inr (js ''https://jspm.dev/npm:'' @ pkg @ js ''@'' @ e)"
    and "cdns Unpkg pkg (Some version) = Inr (js ''https://unpkg.com/'' @ pkg @ js ''@'' @ e)"
  using assms by (simp_all add: skypack_def esm_def jspm_def unpkg_def truthy_def prepend_def)


section \<open>Reading back a quoted string\<close>

lemma hexValue_lowerHexDigit:
  assumes "0 \<le> n" and "n < 16"
  shows "hexValue (lowerHexDigit n) = Some n"
proof -
  from assms have "n \<in> {0, 1, 2, 3, 4, 5, 6, 7, 8, 9, 10, 11, 12, 13, 14, 15}" by simp arith
  then show ?thesis
    by (elim insertE emptyE) (simp_all add: hexValue_def lowerHexDigit_def)
qed

lemma nibbles:
  fixes x :: int
  assumes "0 \<le> x" and "x < 0x10000"
  shows "((x div 0x1000 * 16 + x div 0x100 mod 0x10) * 16 + x div 0x10 mod 0x10) * 16 + x mod 0x10 = x"
    and "0 \<le> x div 0x1000" and "x div 0x1000 < 16"
proof -
  define y1 where "y1 = x div 16"
  define y2 where "y2 = y1 div 16"
  define y3 where "y3 = y2 div 16"
  have d2: "x div 0x100 = y2"
    unfolding y2_def y1_def by (simp add: zdiv_zmult2_eq [symmetric])
  have d3: "x div 0x1000 = y3"
    unfolding y3_def y2_def y1_def by (simp add: zdiv_zmult2_eq [symmetric])
  have e1: "x = y1 * 16 + x mod 16" unfolding y1_def by simp
  have e2: "y1 = y2 * 16 + y1 mod 16" unfolding y2_def by simp
  have e3: "y2 = y3 * 16 + y2 mod 16" unfolding y3_def by simp
  have "((y3 * 16 + y2 mod 16) * 16 + y1 mod 16) * 16 + x mod 16 = x"
    using e1 e2 e3 by simp
  then show "((x div 0x1000 * 16 + x div 0x100 mod 0x10) * 16 + x div 0x10 mod 0x10) * 16 + x mod 0x10 = x"
    by (simp only: d2 d3 y1_def [symmetric])
  show "0 \<le> x div 0x1000" and "x div 0x1000 < 16"
    using assms by auto
qed

lemma uint16_bounds: "0 \<le> uint (c :: 16 word)" "uint c < 0x10000"
proof -
  have "uint c < 2 ^ LENGTH(16)" by (rule uint_lt2p)
  then show "uint c < 0x10000" by simp
qed simp

lemma read_UnicodeEscape:
  "JSONStringCharacters (UnicodeEscape c @ t) = consUnit c (JSONStringCharacters t)"
proof -
  let ?x = "uint c"
  note b = uint16_bounds [of c]
  note n = nibbles [OF b]
  have h1: "hexValue (lowerHexDigit (?x div 0x1000)) = Some (?x div 0x1000)"
    by (rule hexValue_lowerHexDigit [OF n(2) n(3)])
  have h2: "hexValue (lowerHexDigit (?x div 0x100 mod 0x10)) = Some (?x div 0x100 mod 0x10)"
    by (rule hexValue_lowerHexDigit) simp_all
  have h3: "hexValue (lowerHexDigit (?x div 0x10 mod 0x10)) = Some (?x div 0x10 mod 0x10)"
    by (rule hexValue_lowerHexDigit) simp_all
  have h4: "hexValue (lowerHexDigit (?x mod 0x10)) = Some (?x mod 0x10)"
    by (rule hexValue_lowerHexDigit) simp_all
  have w: "word_of_int (((?x div 0x1000 * 16 + ?x div 0x100 mod 0x10) * 16 + ?x div 0x10 mod 0x10) * 16
             + ?x mod 0x10) = c"
    by (simp only: n(1)) simp
  have "JSONHex4 (lowerHexDigit (?x div 0x1000) # lowerHexDigit (?x div 0x100 mod 0x10)
                    # lowerHexDigit (?x div 0x10 mod 0x10) # lowerHexDigit (?x mod 0x10) # t)
          = consUnit c (JSONStringCharacters t)"
    by (simp only: JSONHex4.simps h1 h2 h3 h4 option.case prod.case w)
  then show ?thesis
    by (simp only: UnicodeEscape_def) simp
qed

lemma surrogate_plain:
  assumes "isLeadingSurrogate c \<or> isTrailingSurrogate c"
  shows "c \<noteq> 0x22" and "c \<noteq> 0x5C" and "\<not> c < 0x20"
  using assms unfolding isLeadingSurrogate_def isTrailingSurrogate_def
  by (auto simp: word_le_nat_alt word_less_nat_alt)

lemma read_escape:
  assumes "singleEscape e = Some c" and "e \<noteq> 0x75"
  shows "JSONStringCharacters (0x5C # e # t) = consUnit c (JSONStringCharacters t)"
  using assms by simp

lemma read_plain:
  assumes "c \<noteq> 0x22" and "c \<noteq> 0x5C" and "\<not> c < 0x20"
  shows "JSONStringCharacters (c # t) = consUnit c (JSONStringCharacters t)"
  using assms by simp

lemma read_quoteUnit:
  "JSONStringCharacters (quoteUnit c @ t) = consUnit c (JSONStringCharacters t)"
proof (cases "c = 0x08 \<or> c = 0x09 \<or> c = 0x0A \<or> c = 0x0C \<or> c = 0x0D \<or> c = 0x22 \<or> c = 0x5C")
  case True
  then show ?thesis
    by (elim disjE) (simp_all add: quoteUnit_def singleEscape_def)
next
  case False
  note ne = False
  show ?thesis
  proof (cases "c < 0x20 \<or> isLeadingSurrogate c \<or> isTrailingSurrogate c")
    case True
    with ne have "quoteUnit c = UnicodeEscape c" by (simp add: quoteUnit_def)
    then show ?thesis by (simp only: read_UnicodeEscape)
  next
    case False
    with ne have "quoteUnit c = [c]" by (simp add: quoteUnit_def)
    moreover from ne False have "JSONStringCharacters (c # t) = consUnit c (JSONStringCharacters t)"
      by (intro read_plain) simp_all
    ultimately show ?thesis by simp
  qed
qed

lemma read_pair:
  assumes "isLeadingSurrogate c" and "isTrailingSurrogate d"
  shows "JSONStringCharacters (c # d # t) = consUnit c (consUnit d (JSONStringCharacters t))"
proof -
  from assms have "JSONStringCharacters (c # d # t) = consUnit c (JSONStringCharacters (d # t))"
    using surrogate_plain [of c] by (intro read_plain) auto
  moreover from assms have "JSONStringCharacters (d # t) = consUnit d (JSONStringCharacters t)"
    using surrogate_plain [of d] by (intro read_plain) auto
  ultimately show ?thesis by simp
qed

lemma read_quoteUnits:
  "JSONStringCharacters (quoteUnits s @ 0x22 # rest) = Some (s, rest)"
proof (induction s rule: quoteUnits.induct)
  case 1
  then show ?case by simp
next
  case (2 c)
  have "JSONStringCharacters (quoteUnit c @ 0x22 # rest) = consUnit c (JSONStringCharacters (0x22 # rest))"
    by (rule read_quoteUnit)
  then show ?case by (simp add: consUnit_def)
next
  case (3 c d s)
  show ?case
  proof (cases "isLeadingSurrogate c \<and> isTrailingSurrogate d")
    case True
    then have q: "quoteUnits (c # d # s) @ 0x22 # rest = c # d # quoteUnits s @ 0x22 # rest"
      by simp
    from True have "JSONStringCharacters (c # d # quoteUnits s @ 0x22 # rest)
            = consUnit c (consUnit d (JSONStringCharacters (quoteUnits s @ 0x22 # rest)))"
      by (intro read_pair) simp_all
    also have "\<dots> = Some (c # d # s, rest)"
      using "3.IH"(1) [OF True] by (simp add: consUnit_def)
    finally show ?thesis by (simp only: q)
  next
    case False
    then have q: "quoteUnits (c # d # s) @ 0x22 # rest
                   = quoteUnit c @ quoteUnits (d # s) @ 0x22 # rest"
      by auto
    have "JSONStringCharacters (quoteUnit c @ quoteUnits (d # s) @ 0x22 # rest)
            = consUnit c (JSONStringCharacters (quoteUnits (d # s) @ 0x22 # rest))"
      by (rule read_quoteUnit)
    also have "\<dots> = Some (c # d # s, rest)"
      using "3.IH"(2) [OF False] by (simp add: consUnit_def)
    finally show ?thesis by (simp only: q)
  qed
qed

lemma read_QuoteJSONString:
  "QuoteJSONString s @ rest = 0x22 # quoteUnits s @ 0x22 # rest"
  by (simp add: QuoteJSONString_def)

section \<open>The order of the properties\<close>

lemma toNumber_snoc: "toNumber (s @ [c]) = 10 * toNumber s + (uint c - 0x30)"
  by (simp add: toNumber_def)

lemma digit_value:
  assumes "isDigit c"
  shows "0 \<le> uint c - 0x30" and "uint c - 0x30 < 10"
  using assms unfolding isDigit_def by (simp_all add: word_le_def)

lemma digit_value_zero: "isDigit c \<Longrightarrow> uint c - 0x30 = 0 \<Longrightarrow> c = 0x30"
proof -
  assume "isDigit c" and "uint c - 0x30 = 0"
  then have "uint c = uint (0x30 :: 16 word)" by simp
  then show "c = 0x30" by (simp only: word_uint_eq_iff)
qed

lemma toNumber_nonneg: "list_all isDigit s \<Longrightarrow> 0 \<le> toNumber s"
proof (induction s rule: rev_induct)
  case Nil
  then show ?case by (simp add: toNumber_def)
next
  case (snoc c s)
  then show ?case using digit_value(1) [of c] by (simp add: toNumber_snoc)
qed

lemma toNumber_pos:
  assumes "list_all isDigit s" and "s \<noteq> []" and "hd s \<noteq> 0x30"
  shows "0 < toNumber s"
  using assms
proof (induction s rule: rev_induct)
  case Nil
  then show ?case by simp
next
  case (snoc c s)
  show ?case
  proof (cases "s = []")
    case True
    with snoc.prems have "isDigit c" and "c \<noteq> 0x30" by simp_all
    then have "uint c - 0x30 \<noteq> 0" using digit_value_zero by blast
    with digit_value(1) [OF \<open>isDigit c\<close>] True show ?thesis
      by (simp add: toNumber_def)
  next
    case False
    with snoc.prems have "list_all isDigit s" and "hd s \<noteq> 0x30" and "isDigit c" by simp_all
    with snoc.IH False have "0 < toNumber s" by simp
    with digit_value(1) [OF \<open>isDigit c\<close>] show ?thesis by (simp add: toNumber_snoc)
  qed
qed

lemma toNumber_inj:
  assumes "list_all isDigit s" and "s = [] \<or> hd s \<noteq> 0x30"
    and "list_all isDigit t" and "t = [] \<or> hd t \<noteq> 0x30"
    and "toNumber s = toNumber t"
  shows "s = t"
  using assms
proof (induction s arbitrary: t rule: rev_induct)
  case Nil
  show ?case
  proof (rule ccontr)
    assume "[] \<noteq> t"
    with Nil.prems have "0 < toNumber t" by (intro toNumber_pos) auto
    with Nil.prems(5) show False by (simp add: toNumber_def)
  qed
next
  case (snoc c s)
  from snoc.prems(1,2) have ps: "0 < toNumber (s @ [c])" by (intro toNumber_pos) auto
  have "t \<noteq> []"
  proof
    assume "t = []"
    with snoc.prems(5) ps show False by (simp add: toNumber_def)
  qed
  then obtain u d where t: "t = u @ [d]" by (metis rev_exhaust)
  from snoc.prems(1) have dc: "isDigit c" and ds: "list_all isDigit s" by simp_all
  from snoc.prems(3) t have dd: "isDigit d" and du: "list_all isDigit u" by simp_all
  from snoc.prems(5) t have e: "10 * toNumber s + (uint c - 0x30) = 10 * toNumber u + (uint d - 0x30)"
    by (simp add: toNumber_snoc)
  note bc = digit_value [OF dc] and bd = digit_value [OF dd]
  from e bc bd have v: "uint c - 0x30 = uint d - 0x30" and n: "toNumber s = toNumber u"
    by presburger+
  from v have "uint c = uint d" by simp
  then have cd: "c = d" by (simp only: word_uint_eq_iff)
  from snoc.prems(2) have hs: "s = [] \<or> hd s \<noteq> 0x30" by (cases s) auto
  from snoc.prems(4) t have hu: "u = [] \<or> hd u \<noteq> 0x30" by (cases u) auto
  from snoc.IH [OF ds hs du hu n] cd t show ?case by simp
qed

lemma arrayIndex_inj:
  assumes "arrayIndex s = Some n" and "arrayIndex t = Some n"
  shows "s = t"
proof -
  from assms have s: "s \<noteq> []" "list_all isDigit s" "s = js ''0'' \<or> hd s \<noteq> 0x30" "toNumber s = n"
    and t: "t \<noteq> []" "list_all isDigit t" "t = js ''0'' \<or> hd t \<noteq> 0x30" "toNumber t = n"
    by (auto simp: arrayIndex_def split: if_splits)
  have z: "toNumber (js ''0'') = 0" by (simp add: toNumber_def js_def)
  show ?thesis
  proof (cases "hd s \<noteq> 0x30")
    case True
    with s have "0 < n" using toNumber_pos [of s] by simp
    with t z have "hd t \<noteq> 0x30" by auto
    with True s t show ?thesis by (intro toNumber_inj) simp_all
  next
    case False
    with s have s0: "s = js ''0''" by simp
    with s z have "n = 0" by simp
    with t have "\<not> 0 < toNumber t" by simp
    with t toNumber_pos [of t] have "t = js ''0''" by auto
    with s0 show ?thesis by simp
  qed
qed

lemma orderedFrom_keys:
  "map fst xs = map fst ys \<Longrightarrow> orderedFrom n xs = orderedFrom n ys"
proof (induction xs arbitrary: ys n)
  case Nil
  then show ?case by simp
next
  case (Cons x xs)
  then obtain y ys' where y: "ys = y # ys'" and k: "fst x = fst y" and m: "map fst xs = map fst ys'"
    by (cases ys) auto
  have "list_all (\<lambda>q. arrayIndex (fst q) = None) xs = list_all (\<lambda>k. arrayIndex k = None) (map fst xs)"
    by (simp add: list_all_iff)
  moreover have "list_all (\<lambda>q. arrayIndex (fst q) = None) ys' = list_all (\<lambda>k. arrayIndex k = None) (map fst ys')"
    by (simp add: list_all_iff)
  ultimately show ?case using Cons.IH [OF m] y k m by (simp split: option.splits)
qed

lemma orderedFrom_prefix: "orderedFrom n (xs @ ys) \<Longrightarrow> orderedFrom n xs"
  by (induction xs arbitrary: n) (auto split: option.splits)

lemma orderedFrom_last:
  "orderedFrom j (qs @ [p]) \<Longrightarrow> arrayIndex (fst p) = Some m \<Longrightarrow> j < m"
proof (induction qs arbitrary: j)
  case Nil
  then show ?case by simp
next
  case (Cons q qs)
  show ?case
  proof (cases "arrayIndex (fst q)")
    case None
    with Cons.prems show ?thesis by simp
  next
    case (Some i)
    with Cons.prems have "j < i" and "orderedFrom i (qs @ [p])" by simp_all
    with Cons.IH [of i] Cons.prems(2) show ?thesis by simp
  qed
qed

lemma insertIndex_last:
  "orderedFrom n (acc @ [p]) \<Longrightarrow> arrayIndex (fst p) = Some m \<Longrightarrow> insertIndex m p acc = acc @ [p]"
proof (induction acc arbitrary: n)
  case Nil
  then show ?case by simp
next
  case (Cons q qs)
  show ?case
  proof (cases "arrayIndex (fst q)")
    case None
    with Cons.prems show ?thesis by simp
  next
    case (Some i)
    with Cons.prems have o: "orderedFrom i (qs @ [p])" by simp
    from orderedFrom_last [OF o Cons.prems(2)] have "i < m" .
    with Some Cons.IH [OF o Cons.prems(2)] show ?thesis by simp
  qed
qed

lemma assign_last:
  assumes "propertyOrder (acc @ [(k, v)])"
  shows "assign acc k v = acc @ [(k, v)]"
proof -
  from assms have n: "k \<notin> fst ` set acc" and o: "orderedFrom (- 1) (acc @ [(k, v)])"
    by (auto simp: propertyOrder_def)
  show ?thesis
  proof (cases "arrayIndex k")
    case None
    with n show ?thesis by (simp add: assign_def)
  next
    case (Some m)
    with insertIndex_last [OF o, of m] n show ?thesis by (simp add: assign_def)
  qed
qed

lemma propertyOrder_prefix: "propertyOrder (xs @ ys) \<Longrightarrow> propertyOrder xs"
  using orderedFrom_prefix [of "- 1" xs ys] by (simp add: propertyOrder_def)

lemma propertyOrder_keys: "map fst xs = map fst ys \<Longrightarrow> propertyOrder xs = propertyOrder ys"
  using orderedFrom_keys [of xs ys "- 1"] by (simp add: propertyOrder_def)

lemma orderedFrom_insertIndex:
  assumes "orderedFrom n obj" and "n < m" and "arrayIndex (fst p) = Some m"
    and "\<forall>q \<in> set obj. arrayIndex (fst q) \<noteq> Some m"
  shows "orderedFrom n (insertIndex m p obj)"
  using assms
proof (induction obj arbitrary: n)
  case Nil
  then show ?case by simp
next
  case (Cons q qs)
  show ?case
  proof (cases "arrayIndex (fst q)")
    case None
    with Cons.prems show ?thesis by simp
  next
    case (Some i)
    with Cons.prems have ni: "n < i" and o: "orderedFrom i qs" and im: "i \<noteq> m" by auto
    show ?thesis
    proof (cases "i < m")
      case True
      from Cons.prems(4) have "\<forall>q \<in> set qs. arrayIndex (fst q) \<noteq> Some m" by simp
      from Cons.IH [OF o True Cons.prems(3) this] Some True ni show ?thesis by simp
    next
      case False
      with im have "m < i" by simp
      with Some False Cons.prems o show ?thesis by simp
    qed
  qed
qed

lemma orderedFrom_snoc_name:
  "orderedFrom n obj \<Longrightarrow> arrayIndex k = None \<Longrightarrow> orderedFrom n (obj @ [(k, v)])"
  by (induction obj arbitrary: n) (auto split: option.splits)

lemma arrayIndex_nonneg: "arrayIndex k = Some m \<Longrightarrow> 0 \<le> m"
  using toNumber_nonneg [of k] by (auto simp: arrayIndex_def split: if_splits)

lemma propertyOrder_assign:
  assumes "propertyOrder obj"
  shows "propertyOrder (assign obj k v)"
proof (cases "k \<in> fst ` set obj")
  case True
  then have "map fst (AList.update k v obj) = map fst obj" by (simp add: update_keys)
  from propertyOrder_keys [OF this] assms True show ?thesis by (simp add: assign_def)
next
  case False
  from assms have d: "distinct (map fst obj)" and o: "orderedFrom (- 1) obj"
    by (simp_all add: propertyOrder_def)
  show ?thesis
  proof (cases "arrayIndex k")
    case None
    with False d orderedFrom_snoc_name [OF o None, of v] show ?thesis
      by (simp add: assign_def propertyOrder_def)
  next
    case (Some m)
    have "\<forall>q \<in> set obj. arrayIndex (fst q) \<noteq> Some m"
    proof
      fix q
      assume q: "q \<in> set obj"
      show "arrayIndex (fst q) \<noteq> Some m"
      proof
        assume "arrayIndex (fst q) = Some m"
        from arrayIndex_inj [OF this Some] q False show False by auto
      qed
    qed
    moreover from arrayIndex_nonneg [OF Some] have "- 1 < m" by simp
    ultimately have "orderedFrom (- 1) (insertIndex m (k, v) obj)"
      using o Some by (intro orderedFrom_insertIndex) simp_all
    moreover have "distinct (map fst (insertIndex m (k, v) obj))"
      using False d by (intro distinct_insertIndex) simp_all
    ultimately show ?thesis using False Some by (simp add: assign_def propertyOrder_def)
  qed
qed

lemma addImports_propertyOrder:
  "addImports sv cdn es st = Inr st' \<Longrightarrow> propertyOrder (fst st) \<Longrightarrow> propertyOrder (fst st')"
proof (induction es arbitrary: st)
  case Nil
  then show ?case by simp
next
  case (Cons e es)
  show ?case
  proof (cases e st rule: addImport_cases [of sv cdn])
    case (skip w)
    with Cons.prems have "addImports sv cdn es (fst st, snd st @ [w]) = Inr st'" by simp
    from Cons.IH [OF this] Cons.prems(2) show ?thesis by simp
  next
    case (throw err)
    with Cons.prems show ?thesis by simp
  next
    case (store url)
    with Cons.prems have "addImports sv cdn es (assign (fst st) (fst e) url, snd st) = Inr st'"
      by simp
    from Cons.IH [OF this] Cons.prems(2) show ?thesis
      by (simp add: propertyOrder_assign)
  qed
qed

lemma getImports_propertyOrder:
  assumes "getImports sv packageJson keys cdn = Inr (imps, ws)"
  shows "propertyOrder imps"
proof -
  from assms have "addImports sv cdn (entries packageJson keys) ([], []) = Inr (imps, ws)"
    by (simp add: getImports_def getImportsFrom_entries)
  from addImports_propertyOrder [OF this] show ?thesis by (simp add: propertyOrder_def)
qed

section \<open>Reading back the written document\<close>

lemma skipWhiteSpace_simps:
  "skipWhiteSpace (0x20 # s) = skipWhiteSpace s"
  "skipWhiteSpace (0x0A # s) = skipWhiteSpace s"
  "skipWhiteSpace (0x22 # s) = 0x22 # s"
  "skipWhiteSpace (0x2C # s) = 0x2C # s"
  "skipWhiteSpace (0x3A # s) = 0x3A # s"
  "skipWhiteSpace (0x7B # s) = 0x7B # s"
  "skipWhiteSpace (0x7D # s) = 0x7D # s"
  "skipWhiteSpace [] = []"
  by (simp_all add: skipWhiteSpace_def isWhiteSpace_def)

lemma read_member:
  "JSONMembers (Suc n) (QuoteJSONString k @ js '': '' @ t) obj =
     (case JSONValue n (0x20 # t) of
        None \<Rightarrow> None
      | Some (v, rest) \<Rightarrow>
          (case skipWhiteSpace rest of
             [] \<Rightarrow> None
           | e # w \<Rightarrow>
               if e = 0x2C then JSONMembers n (skipWhiteSpace w) (assign obj k v)
               else if e = 0x7D then Some (Object (assign obj k v), w)
               else None))"
proof -
  have t: "QuoteJSONString k @ js '': '' @ t = 0x22 # quoteUnits k @ 0x22 # 0x3A # 0x20 # t"
    by (simp add: QuoteJSONString_def js_def)
  show ?thesis
    unfolding t
    by (simp add: read_quoteUnits skipWhiteSpace_simps)
qed

lemma read_string_value:
  "JSONValue (Suc n) (0x20 # QuoteJSONString v @ rest) = Some (String v, rest)"
  by (simp add: QuoteJSONString_def skipWhiteSpace_simps read_quoteUnits)

lemma skip_to_member:
  "skipWhiteSpace ([0x0A] @ js ''    '' @ QuoteJSONString k @ t) = QuoteJSONString k @ t"
  by (simp add: js_def skipWhiteSpace_simps QuoteJSONString_def)

lemma read_last_member:
  assumes "assign obj k (String v) = obj'"
  shows "JSONMembers (Suc (Suc n))
           (QuoteJSONString k @ js '': '' @ QuoteJSONString v @ [0x0A] @ js ''  }'' @ rest) obj
         = Some (Object obj', rest)"
proof -
  have s: "skipWhiteSpace ([0x0A] @ js ''  }'' @ rest) = 0x7D # rest"
    by (simp add: js_def skipWhiteSpace_simps)
  have v: "JSONValue (Suc n) (0x20 # QuoteJSONString v @ [0x0A] @ js ''  }'' @ rest)
             = Some (String v, [0x0A] @ js ''  }'' @ rest)"
    by (rule read_string_value)
  show ?thesis
    by (simp only: read_member v s option.case prod.case list.case assms) simp
qed

lemma read_next_member:
  assumes "assign obj k (String v) = obj'"
  shows "JSONMembers (Suc (Suc n))
           (QuoteJSONString k @ js '': '' @ QuoteJSONString v
              @ js '','' @ [0x0A] @ js ''    '' @ QuoteJSONString k' @ t) obj
         = JSONMembers (Suc n) (QuoteJSONString k' @ t) obj'"
proof -
  have c: "js '','' @ [0x0A] @ js ''    '' @ QuoteJSONString k' @ t
             = 0x2C # ([0x0A] @ js ''    '' @ QuoteJSONString k' @ t)"
    by (simp add: js_def)
  have v: "JSONValue (Suc n) (0x20 # QuoteJSONString v @ 0x2C # ([0x0A] @ js ''    '' @ QuoteJSONString k' @ t))
             = Some (String v, 0x2C # ([0x0A] @ js ''    '' @ QuoteJSONString k' @ t))"
    by (rule read_string_value)
  show ?thesis
    unfolding c
    by (simp only: read_member v skipWhiteSpace_simps skip_to_member option.case prod.case
          list.case assms)
       simp
qed

lemma read_members:
  assumes "propertyOrder (obj @ map (\<lambda>(k, v). (k, String v)) (p # ps))"
    and "length ps + 2 \<le> n"
  shows "JSONMembers n
           (QuoteJSONString (fst p) @ js '': '' @ QuoteJSONString (snd p)
              @ concat (map (\<lambda>q. js '','' @ [0x0A] @ js ''    ''
                                  @ QuoteJSONString (fst q) @ js '': '' @ QuoteJSONString (snd q)) ps)
              @ [0x0A] @ js ''  }'' @ rest)
           obj
         = Some (Object (obj @ map (\<lambda>(k, v). (k, String v)) (p # ps)), rest)"
  using assms
proof (induction ps arbitrary: p obj n)
  case Nil
  from Nil.prems(2) have n: "n = Suc (Suc (n - 2))" by simp
  from Nil.prems(1) have "propertyOrder (obj @ [(fst p, String (snd p))])"
    by (simp add: split_def)
  then have a: "assign obj (fst p) (String (snd p)) = obj @ [(fst p, String (snd p))]"
    by (rule assign_last)
  have "JSONMembers (Suc (Suc (n - 2)))
           (QuoteJSONString (fst p) @ js '': '' @ QuoteJSONString (snd p) @ [0x0A] @ js ''  }'' @ rest) obj
         = Some (Object (obj @ [(fst p, String (snd p))]), rest)"
    by (rule read_last_member [OF a])
  with n show ?case by (simp add: split_def del: JSONMembers.simps)
next
  case (Cons q qs)
  from Cons.prems(2) have n: "n = Suc (Suc (n - 2))" and f: "length qs + 2 \<le> Suc (n - 2)"
    by simp_all
  let ?val = "\<lambda>(k, v). (k, String v)"
  from Cons.prems(1) have o: "propertyOrder ((obj @ [?val p]) @ map ?val (q # qs))" by simp
  then have "propertyOrder (obj @ [(fst p, String (snd p))])"
    using propertyOrder_prefix [of "obj @ [?val p]" "map ?val (q # qs)"] by (simp add: split_def)
  then have a: "assign obj (fst p) (String (snd p)) = obj @ [?val p]"
    using assign_last [of obj "fst p" "String (snd p)"] by (simp add: split_def)
  let ?tail = "concat (map (\<lambda>q. js '','' @ [0x0A] @ js ''    ''
                                  @ QuoteJSONString (fst q) @ js '': '' @ QuoteJSONString (snd q)) qs)
              @ [0x0A] @ js ''  }'' @ rest"
  have c: "concat (map (\<lambda>q. js '','' @ [0x0A] @ js ''    ''
                                  @ QuoteJSONString (fst q) @ js '': '' @ QuoteJSONString (snd q)) (q # qs))
              @ [0x0A] @ js ''  }'' @ rest
           = js '','' @ [0x0A] @ js ''    '' @ QuoteJSONString (fst q)
               @ (js '': '' @ QuoteJSONString (snd q) @ ?tail)"
    by simp
  have "JSONMembers (Suc (Suc (n - 2)))
          (QuoteJSONString (fst p) @ js '': '' @ QuoteJSONString (snd p)
             @ js '','' @ [0x0A] @ js ''    '' @ QuoteJSONString (fst q)
             @ (js '': '' @ QuoteJSONString (snd q) @ ?tail)) obj
        = JSONMembers (Suc (n - 2))
            (QuoteJSONString (fst q) @ (js '': '' @ QuoteJSONString (snd q) @ ?tail)) (obj @ [?val p])"
    by (rule read_next_member [OF a])
  also have "\<dots> = Some (Object ((obj @ [?val p]) @ map ?val (q # qs)), rest)"
    using Cons.IH [OF o f] by (simp del: JSONMembers.simps)
  finally show ?case
    unfolding c using n by (simp del: JSONMembers.simps)
qed

lemma serialize_record:
  "SerializeJSONProperty (js ''  '') (js ''  '') (recordValue m) =
     (case m of
        [] \<Rightarrow> js ''{}''
      | p # ps \<Rightarrow>
          js ''{'' @ [0x0A] @ js ''    ''
          @ QuoteJSONString (fst p) @ js '': '' @ QuoteJSONString (snd p)
          @ concat (map (\<lambda>q. js '','' @ [0x0A] @ js ''    ''
                              @ QuoteJSONString (fst q) @ js '': '' @ QuoteJSONString (snd q)) ps)
          @ [0x0A] @ js ''  }'')"
proof (cases m)
  case Nil
  then show ?thesis by (simp add: recordValue_def)
next
  case (Cons p ps)
  have g: "js ''  '' \<noteq> []" by (simp add: js_def)
  have i: "js ''  '' @ js ''  '' = js ''    ''" by (simp add: js_def)
  have c: "js '':'' @ js '' '' @ t = js '': '' @ t" for t by (simp add: js_def)
  have b: "js ''  }'' = js ''  '' @ js ''}''" by (simp add: js_def)
  note mr = members_record [of "js ''  ''" "js ''    ''"] members_record [of "js ''  ''" "js ''    ''", unfolded split_def]
  show ?thesis
    using g
    by (simp add: Cons recordValue_def mr Let_def i join_def split_def c b comp_def)
qed

lemma read_record:
  assumes "propertyOrder m" and "length m + 2 \<le> n"
  shows "JSONValue (Suc n) (0x20 # SerializeJSONProperty (js ''  '') (js ''  '') (recordValue m) @ rest)
           = Some (recordValue m, rest)"
proof (cases m)
  case Nil
  have "js ''{}'' @ rest = 0x7B # 0x7D # rest" by (simp add: js_def)
  with Nil show ?thesis
    by (simp add: serialize_record recordValue_def skipWhiteSpace_simps)
next
  case (Cons p ps)
  let ?members = "QuoteJSONString (fst p) @ js '': '' @ QuoteJSONString (snd p)
          @ concat (map (\<lambda>q. js '','' @ [0x0A] @ js ''    ''
                              @ QuoteJSONString (fst q) @ js '': '' @ QuoteJSONString (snd q)) ps)
          @ [0x0A] @ js ''  }'' @ rest"
  have t: "SerializeJSONProperty (js ''  '') (js ''  '') (recordValue m) @ rest
             = 0x7B # ([0x0A] @ js ''    '' @ QuoteJSONString (fst p)
                         @ (js '': '' @ QuoteJSONString (snd p)
          @ concat (map (\<lambda>q. js '','' @ [0x0A] @ js ''    ''
                              @ QuoteJSONString (fst q) @ js '': '' @ QuoteJSONString (snd q)) ps)
          @ [0x0A] @ js ''  }'' @ rest))"
    by (simp only: serialize_record Cons list.case) (simp add: js_def)
  have q: "QuoteJSONString (fst p) @ u = 0x22 # quoteUnits (fst p) @ 0x22 # u" for u
    by (simp add: QuoteJSONString_def)
  have si: "skipWhiteSpace (js ''    '' @ 0x22 # u) = 0x22 # u" for u
    by (simp add: js_def skipWhiteSpace_simps)
  from assms Cons have o: "propertyOrder ([] @ map (\<lambda>(k, v). (k, String v)) (p # ps))"
    using propertyOrder_keys [of "map (\<lambda>(k, v). (k, String v)) m" m] by (simp add: comp_def split_def)
  from assms(2) Cons have f: "length ps + 2 \<le> n" by simp
  have r: "JSONMembers n ?members [] = Some (Object ([] @ map (\<lambda>(k, v). (k, String v)) (p # ps)), rest)"
    by (rule read_members [OF o f])
  have "JSONValue (Suc n) (0x20 # 0x7B # ([0x0A] @ js ''    '' @ QuoteJSONString (fst p)
                         @ (js '': '' @ QuoteJSONString (snd p)
          @ concat (map (\<lambda>q. js '','' @ [0x0A] @ js ''    ''
                              @ QuoteJSONString (fst q) @ js '': '' @ QuoteJSONString (snd q)) ps)
          @ [0x0A] @ js ''  }'' @ rest)))
        = JSONMembers n ?members []"
    by (simp add: skipWhiteSpace_simps si q del: JSONMembers.simps)
  with r show ?thesis
    unfolding t by (simp add: recordValue_def Cons del: JSONMembers.simps JSONValue.simps)
qed

lemma stringify_text:
  "JSON_stringify (importMapValue (importMap m)) (js ''  '')
     = js ''{'' @ [0x0A] @ js ''  '' @ QuoteJSONString (js ''imports'') @ js '': ''
       @ SerializeJSONProperty (js ''  '') (js ''  '') (recordValue m) @ [0x0A] @ js ''}''"
proof -
  have g: "js ''  '' \<noteq> []" by (simp add: js_def)
  have c: "js '':'' @ js '' '' @ t = js '': '' @ t" for t by (simp add: js_def)
  show ?thesis
    unfolding JSON_stringify_def importMapValue_def importMap_def
    using g by (simp add: Let_def join_def c del: SerializeJSONProperty.simps(2))
       (simp add: Let_def join_def c g)
qed

lemma length_concat_map:
  "(\<And>x. f x \<noteq> []) \<Longrightarrow> length xs \<le> length (concat (map f xs))"
proof (induction xs)
  case Nil
  then show ?case by simp
next
  case (Cons x xs)
  have "1 \<le> length (f x)" using Cons.prems [of x] by (cases "f x") simp_all
  with Cons show ?case by simp
qed

lemma length_record: "length m \<le> length (SerializeJSONProperty (js ''  '') (js ''  '') (recordValue m))"
proof (cases m)
  case Nil
  then show ?thesis by simp
next
  case (Cons p ps)
  have "length ps \<le> length (concat (map (\<lambda>q. js '','' @ [0x0A] @ js ''    ''
                              @ QuoteJSONString (fst q) @ js '': '' @ QuoteJSONString (snd q)) ps))"
    by (rule length_concat_map) simp
  then show ?thesis
    by (simp only: serialize_record Cons list.case) simp
qed

lemma read_importMap:
  assumes "propertyOrder m"
  shows "JSON_parse (JSON_stringify (importMapValue (importMap m)) (js ''  ''))
           = Some (importMapValue (importMap m))"
proof -
  let ?inner = "SerializeJSONProperty (js ''  '') (js ''  '') (recordValue m)"
  let ?text = "JSON_stringify (importMapValue (importMap m)) (js ''  '')"
  have t: "?text = 0x7B # 0x0A # 0x20 # 0x20
                    # (QuoteJSONString (js ''imports'') @ js '': '' @ (?inner @ [0x0A, 0x7D]))"
    by (simp only: stringify_text) (simp add: js_def)
  have "length m + 10 \<le> length ?text"
    unfolding t using length_record [of m] by (simp add: QuoteJSONString_def js_def)
  then have "length ?text = Suc (Suc (length ?text - 2)) \<and> length m + 2 \<le> length ?text - 2"
    by arith
  then obtain n where n: "length ?text = Suc (Suc n)" and f: "length m + 2 \<le> n"
    by blast
  have v: "JSONValue (Suc n) (0x20 # ?inner @ [0x0A, 0x7D]) = Some (recordValue m, [0x0A, 0x7D])"
    by (rule read_record [OF assms f])
  have a: "assign [] (js ''imports'') (recordValue m) = [(js ''imports'', recordValue m)]"
    by (simp add: assign_def arrayIndex_def js_def isDigit_def)
  have q: "QuoteJSONString (js ''imports'') @ u = 0x22 # (quoteUnits (js ''imports'') @ 0x22 # u)" for u
    by (simp add: QuoteJSONString_def)
  have m: "JSONMembers (Suc (Suc n))
             (QuoteJSONString (js ''imports'') @ js '': '' @ (?inner @ [0x0A, 0x7D])) []
           = Some (Object [(js ''imports'', recordValue m)], [])"
    by (simp only: read_member v option.case prod.case) (simp add: skipWhiteSpace_simps a)
  have "JSONValue (Suc (Suc (Suc n))) ?text = Some (Object [(js ''imports'', recordValue m)], [])"
    unfolding t
    using m
    by (simp add: skipWhiteSpace_simps q del: JSONMembers.simps)
  then have "JSON_parse ?text = Some (Object [(js ''imports'', recordValue m)])"
    by (simp only: JSON_parse_def n option.case prod.case skipWhiteSpace_simps) simp
  then show ?thesis
    by (simp add: importMapValue_def importMap_def)
qed

lemma recordValue_inj: "recordValue a = recordValue b \<Longrightarrow> a = b"
proof (induction a arbitrary: b)
  case Nil
  then show ?case by (simp add: recordValue_def)
next
  case (Cons x a)
  then obtain y b' where b: "b = y # b'" by (cases b) (auto simp: recordValue_def)
  with Cons.prems have "x = y" and "recordValue a = recordValue b'"
    by (auto simp: recordValue_def split_def prod_eq_iff)
  with Cons.IH b show ?case by simp
qed

text \<open>
  Claim C8. The text that \<open>JSON.stringify\<close> makes of the import map of a run is read
  back by \<open>JSON.parse\<close> as the same import map: the same names with the same URLs in
  the same order, under the single field \<open>imports\<close>. This holds for the text that
  \<open>main\<close> writes.
\<close>

theorem written_document_reads_back:
  assumes "getImports sv packageJson keys cdn = Inr (imps, ws)"
  shows "JSON_parse (JSON_stringify (importMapValue (importMap imps)) (js ''  ''))
           = Some (importMapValue (importMap imps))
       \<and> (\<forall>m. importMapValue (importMap m) = importMapValue (importMap imps) \<longrightarrow> m = imps)
       \<and> (keys = mainKeys dev optional peer \<longrightarrow>
            (\<exists>text. main sv packageJson cdn dev optional peer = Inr (text, ws)
                    \<and> JSON_parse text = Some (importMapValue (importMap imps))))"
proof (intro conjI allI impI)
  have o: "propertyOrder imps" by (rule getImports_propertyOrder [OF assms])
  show r: "JSON_parse (JSON_stringify (importMapValue (importMap imps)) (js ''  ''))
           = Some (importMapValue (importMap imps))"
    by (rule read_importMap [OF o])
  show "m = imps" if "importMapValue (importMap m) = importMapValue (importMap imps)" for m
    using that recordValue_inj [of m imps] by (simp add: importMapValue_def importMap_def)
  show "\<exists>text. main sv packageJson cdn dev optional peer = Inr (text, ws)
                    \<and> JSON_parse text = Some (importMapValue (importMap imps))"
    if "keys = mainKeys dev optional peer"
    using that assms r by (simp add: main_def Let_def)
qed

theorem written_document_reads_back_witness:
  "JSON_parse (JSON_stringify
       (importMapValue (importMap [(js ''1'', js ''https://esm.sh/1@1.2.3''),
                                   (js ''foo'', js ''https://esm.sh/foo@latest'')]))
       (js ''  ''))
     = Some (importMapValue (importMap [(js ''1'', js ''https://esm.sh/1@1.2.3''),
                                        (js ''foo'', js ''https://esm.sh/foo@latest'')]))"
proof -
  have g: "getImports semver7 (manifest [(js ''foo'', js ''latest''), (js ''1'', js ''1.2.3'')])
             [Dependencies] Esm
           = Inr ([(js ''1'', js ''https://esm.sh/1@1.2.3''),
                   (js ''foo'', js ''https://esm.sh/foo@latest'')], [])"
    by code_simp
  from written_document_reads_back [OF g, THEN conjunct1] show ?thesis .
qed

section \<open>\<open>encodeURI\<close> code point by code point\<close>

lemma surrogate_uint:
  "isLeadingSurrogate c \<longleftrightarrow> 0xD800 \<le> uint c \<and> uint c \<le> 0xDBFF"
  "isTrailingSurrogate c \<longleftrightarrow> 0xDC00 \<le> uint c \<and> uint c \<le> 0xDFFF"
  by (simp_all add: isLeadingSurrogate_def isTrailingSurrogate_def word_le_def)

lemma isUnescaped_cases:
  assumes "isUnescaped n"
  shows "n \<in> set ([0x41..0x5A] @ [0x61..0x7A] @ [0x30..0x39]
                  @ [0x3B, 0x2F, 0x3F, 0x3A, 0x40, 0x26, 0x3D, 0x2B, 0x24, 0x2C,
                     0x2D, 0x5F, 0x2E, 0x21, 0x7E, 0x2A, 0x27, 0x28, 0x29, 0x23])"
proof -
  have "{0x41..0x5A} = set [0x41 .. 0x5A :: int]" "{0x61..0x7A} = set [0x61 .. 0x7A :: int]"
    "{0x30..0x39} = set [0x30 .. 0x39 :: int]"
    by (simp_all only: set_upto)
  then show ?thesis
    using assms unfolding isUnescaped_def set_append
    by (simp only: atLeastAtMost_iff [symmetric] Un_iff)
qed

lemma unescaped_points: "set (map uint unescapedURISet)
   = set ([0x41..0x5A] @ [0x61..0x7A] @ [0x30..0x39]
          @ [0x3B, 0x2F, 0x3F, 0x3A, 0x40, 0x26, 0x3D, 0x2B, 0x24, 0x2C,
             0x2D, 0x5F, 0x2E, 0x21, 0x7E, 0x2A, 0x27, 0x28, 0x29, 0x23])"
proof -
  have u: "[0x41..0x5A] = [0x41::int, 0x42, 0x43, 0x44, 0x45, 0x46, 0x47, 0x48, 0x49, 0x4A, 0x4B, 0x4C,
              0x4D, 0x4E, 0x4F, 0x50, 0x51, 0x52, 0x53, 0x54, 0x55, 0x56, 0x57, 0x58, 0x59, 0x5A]"
    by (simp add: upto.simps)
  have l: "[0x61..0x7A] = [0x61::int, 0x62, 0x63, 0x64, 0x65, 0x66, 0x67, 0x68, 0x69, 0x6A, 0x6B, 0x6C,
              0x6D, 0x6E, 0x6F, 0x70, 0x71, 0x72, 0x73, 0x74, 0x75, 0x76, 0x77, 0x78, 0x79, 0x7A]"
    by (simp add: upto.simps)
  have d: "[0x30..0x39] = [0x30::int, 0x31, 0x32, 0x33, 0x34, 0x35, 0x36, 0x37, 0x38, 0x39]"
    by (simp add: upto.simps)
  show ?thesis
    unfolding u l d
    by (simp add: unescapedURISet_def uriReserved_def uriAlpha_def DecimalDigit_def uriMark_def js_def)
       blast
qed

lemma unescaped_iff: "includes_js unescapedURISet c \<longleftrightarrow> isUnescaped (uint c)"
proof
  assume "includes_js unescapedURISet c"
  then have "uint c \<in> set (map uint unescapedURISet)" by (simp add: includes_js_def)
  then show "isUnescaped (uint c)"
    unfolding unescaped_points isUnescaped_def by auto
next
  assume "isUnescaped (uint c)"
  from isUnescaped_cases [OF this] have "uint c \<in> set (map uint unescapedURISet)"
    by (simp only: unescaped_points)
  then obtain d where "d \<in> set unescapedURISet" and "uint c = uint d" by auto
  then have "c = d" by (simp add: word_uint_eq_iff)
  with \<open>d \<in> set unescapedURISet\<close> show "includes_js unescapedURISet c"
    by (simp add: includes_js_def)
qed

lemma hexDigit_digitOf:
  assumes "0 \<le> n" and "n < 16"
  shows "hexDigit n = digitOf ''0123456789ABCDEF'' n"
proof -
  from assms have "n \<in> {0, 1, 2, 3, 4, 5, 6, 7, 8, 9, 10, 11, 12, 13, 14, 15}" by simp arith
  then show ?thesis
    by (elim insertE emptyE) (simp_all add: hexDigit_def digitOf_def)
qed

lemma percent_digitOf:
  assumes "0 \<le> b" and "b < 256"
  shows "percent b = [0x25, digitOf ''0123456789ABCDEF'' (b div 16),
                      digitOf ''0123456789ABCDEF'' (b mod 16)]"
proof -
  from assms have "0 \<le> b div 16" "b div 16 < 16" by simp_all
  moreover have "0 \<le> b mod 16" "b mod 16 < 16" by simp_all
  ultimately show ?thesis by (simp add: percent_def hexDigit_digitOf)
qed

lemma escaped_digitOf:
  assumes "0 \<le> cp" and "cp < 0x110000"
  shows "escaped cp = concat (map (\<lambda>b. [0x25, digitOf ''0123456789ABCDEF'' (b div 16),
                                              digitOf ''0123456789ABCDEF'' (b mod 16)]) (utf8 cp))"
proof -
  have "map percent (utf8 cp) = map (\<lambda>b. [0x25, digitOf ''0123456789ABCDEF'' (b div 16),
                                              digitOf ''0123456789ABCDEF'' (b mod 16)]) (utf8 cp)"
  proof (rule map_cong [OF refl])
    fix b assume "b \<in> set (utf8 cp)"
    with utf8_octets [OF assms] have "0 \<le> b" "b < 256" by auto
    then show "percent b = [0x25, digitOf ''0123456789ABCDEF'' (b div 16),
                                  digitOf ''0123456789ABCDEF'' (b mod 16)]"
      by (rule percent_digitOf)
  qed
  then show ?thesis by (simp only: escaped_def)
qed

lemma uriEscape_unit:
  "uriEscape (uint c) = (if includes_js unescapedURISet c then [c] else escaped (uint c))"
proof -
  have "0 \<le> uint c" "uint c < 0x110000" using uint16_bounds [of c] by simp_all
  then show ?thesis
    by (simp add: uriEscape_def unescaped_iff escaped_digitOf)
qed

lemma codePoints_pair:
  assumes "isLeadingSurrogate c" and "isTrailingSurrogate d"
  shows "codePoints (c # d # s) = UTF16SurrogatePairToCodePoint c d # codePoints s"
  using assms by (simp add: surrogate_uint UTF16SurrogatePairToCodePoint_def)

lemma codePoints_unit:
  assumes "\<not> (isLeadingSurrogate c \<and> isTrailingSurrogate d)"
  shows "codePoints (c # d # s) = uint c # codePoints (d # s)"
  using assms by (auto simp add: surrogate_uint)

lemma pair_supplementary:
  assumes "isLeadingSurrogate c" and "isTrailingSurrogate d"
  shows "0x10000 \<le> UTF16SurrogatePairToCodePoint c d"
  using assms by (simp add: surrogate_uint UTF16SurrogatePairToCodePoint_def)

lemma uriEscape_pair:
  assumes "isLeadingSurrogate c" and "isTrailingSurrogate d"
  shows "uriEscape (UTF16SurrogatePairToCodePoint c d) = escaped (UTF16SurrogatePairToCodePoint c d)"
proof -
  let ?cp = "UTF16SurrogatePairToCodePoint c d"
  from pair_supplementary [OF assms] have "\<not> isUnescaped ?cp" by (simp add: isUnescaped_def)
  moreover from pair_codepoint [OF assms] have "0 \<le> ?cp" "?cp < 0x110000" by simp_all
  ultimately show ?thesis by (simp only: uriEscape_def if_False escaped_digitOf)
qed

lemma encodeURI_percentEncode: "wellFormed s \<Longrightarrow> encodeURI s = Inr (percentEncode s)"
proof (induction s rule: encodeURI.induct)
  case 1
  show ?case by (simp add: percentEncode_def)
next
  case (2 c)
  then show ?case
    by (simp add: percentEncode_def uriEscape_unit)
next
  case (3 c d s)
  show ?case
  proof (cases "includes_js unescapedURISet c")
    case True
    then have ns: "\<not> isLeadingSurrogate c" "\<not> isTrailingSurrogate c"
      using unescaped_not_surrogate [of c] by simp_all
    with "3.prems" have "wellFormed (d # s)" by simp
    with True "3.IH"(1) have "encodeURI (d # s) = Inr (percentEncode (d # s))" by simp
    moreover from ns have "codePoints (c # d # s) = uint c # codePoints (d # s)"
      by (intro codePoints_unit) simp
    ultimately show ?thesis using True
      by (simp add: percentEncode_def uriEscape_unit prepend_def del: codePoints.simps)
  next
    case False
    show ?thesis
    proof (cases "isLeadingSurrogate c")
      case True
      with "3.prems" have t: "isTrailingSurrogate d" and w: "wellFormed s"
        by (simp_all split: if_splits)
      from True have nt: "\<not> isTrailingSurrogate c" using lead_not_trail [of c] by simp
      from False nt True t w "3.IH"(2) have "encodeURI s = Inr (percentEncode s)" by simp
      moreover note codePoints_pair [OF True t, of s] uriEscape_pair [OF True t]
      ultimately show ?thesis using False nt True t
        by (simp add: percentEncode_def prepend_def del: codePoints.simps)
    next
      case nl: False
      with "3.prems" have nt: "\<not> isTrailingSurrogate c" and w: "wellFormed (d # s)"
        by (simp_all split: if_splits)
      from False nt nl w "3.IH"(3) have "encodeURI (d # s) = Inr (percentEncode (d # s))" by simp
      moreover from nl have "codePoints (c # d # s) = uint c # codePoints (d # s)"
        by (intro codePoints_unit) simp
      ultimately show ?thesis using False nt nl
        by (simp add: percentEncode_def uriEscape_unit prepend_def del: codePoints.simps)
    qed
  qed
qed

lemma wellFormed_codePoints:
  "wellFormed s \<longleftrightarrow> list_all (\<lambda>cp. \<not> isSurrogate cp) (codePoints s)"
proof (induction s rule: wellFormed.induct)
  case 1
  show ?case by simp
next
  case (2 c)
  show ?case by (auto simp add: surrogate_uint isSurrogate_def)
next
  case (3 c d s)
  have u: "isSurrogate (uint c) \<longleftrightarrow> isLeadingSurrogate c \<or> isTrailingSurrogate c"
    by (auto simp add: surrogate_uint isSurrogate_def)
  show ?case
  proof (cases "isLeadingSurrogate c")
    case True
    show ?thesis
    proof (cases "isTrailingSurrogate d")
      case t: True
      from pair_supplementary [OF True t]
      have "\<not> isSurrogate (UTF16SurrogatePairToCodePoint c d)" by (simp add: isSurrogate_def)
      with True t "3.IH"(1) show ?thesis
        by (simp add: codePoints_pair del: codePoints.simps)
    next
      case False
      with True u show ?thesis
        by (simp add: codePoints_unit del: codePoints.simps)
    qed
  next
    case False
    with u "3.IH"(2) show ?thesis
      by (simp add: codePoints_unit del: codePoints.simps)
  qed
qed

lemma utf8Value_two:
  assumes "0 \<le> x" "x < 0x20" "0 \<le> y" "y < 0x40"
  shows "utf8Value [0xC0 + x, 0x80 + y] = Some (x * 0x40 + y)"
  using assms by simp

lemma utf8Value_three:
  assumes "0 \<le> x" "x < 0x10" "0 \<le> y" "y < 0x40" "0 \<le> z" "z < 0x40"
  shows "utf8Value [0xE0 + x, 0x80 + y, 0x80 + z] = Some ((x * 0x40 + y) * 0x40 + z)"
  using assms by simp

lemma utf8Value_four:
  assumes "0 \<le> x" "x < 0x8" "0 \<le> y" "y < 0x40" "0 \<le> z" "z < 0x40" "0 \<le> u" "u < 0x40"
  shows "utf8Value [0xF0 + x, 0x80 + y, 0x80 + z, 0x80 + u]
         = Some (((x * 0x40 + y) * 0x40 + z) * 0x40 + u)"
  using assms by simp

lemma sextets:
  fixes cp :: int
  shows "cp div 0x40 div 0x40 = cp div 0x1000" and "cp div 0x40 div 0x40 div 0x40 = cp div 0x40000"
    and "cp div 0x1000 div 0x40 = cp div 0x40000"
  by (simp_all add: zdiv_zmult2_eq [symmetric])

lemma sextets_two:
  fixes cp :: int
  shows "cp div 0x40 * 0x40 + cp mod 0x40 = cp"
  by simp

lemma sextets_three:
  fixes cp :: int
  shows "(cp div 0x1000 * 0x40 + cp div 0x40 mod 0x40) * 0x40 + cp mod 0x40 = cp"
proof -
  define a where "a = cp div 0x40"
  have "a div 0x40 * 0x40 + a mod 0x40 = a" by simp
  moreover have "a div 0x40 = cp div 0x1000" unfolding a_def by (rule sextets)
  moreover have "a * 0x40 + cp mod 0x40 = cp" unfolding a_def by simp
  ultimately show ?thesis unfolding a_def [symmetric] by (simp only:)
qed

lemma sextets_four:
  fixes cp :: int
  shows "((cp div 0x40000 * 0x40 + cp div 0x1000 mod 0x40) * 0x40 + cp div 0x40 mod 0x40) * 0x40
         + cp mod 0x40 = cp"
proof -
  define b where "b = cp div 0x1000"
  have "b div 0x40 * 0x40 + b mod 0x40 = b" by simp
  moreover have "b div 0x40 = cp div 0x40000" unfolding b_def by (rule sextets)
  ultimately have "cp div 0x40000 * 0x40 + cp div 0x1000 mod 0x40 = cp div 0x1000"
    unfolding b_def by (simp only:)
  then show ?thesis by (simp only: sextets_three)
qed

lemma utf8Value_utf8:
  assumes "0 \<le> cp" and "cp < 0x110000"
  shows "utf8Value (utf8 cp) = Some cp"
proof -
  consider "cp < 0x80" | "0x80 \<le> cp" "cp < 0x800" | "0x800 \<le> cp" "cp < 0x10000" | "0x10000 \<le> cp"
    by linarith
  then show ?thesis
  proof cases
    case 1
    with assms show ?thesis by (simp add: utf8_def)
  next
    case 2
    then have u: "utf8 cp = [0xC0 + cp div 0x40, 0x80 + cp mod 0x40]" by (simp add: utf8_def)
    from 2 have "0 \<le> cp div 0x40" "cp div 0x40 < 0x20" by simp_all
    moreover have "0 \<le> cp mod 0x40" "cp mod 0x40 < 0x40" by simp_all
    ultimately have "utf8Value (utf8 cp) = Some (cp div 0x40 * 0x40 + cp mod 0x40)"
      unfolding u by (rule utf8Value_two)
    then show ?thesis by (simp only: sextets_two)
  next
    case 3
    then have u: "utf8 cp = [0xE0 + cp div 0x1000, 0x80 + cp div 0x40 mod 0x40, 0x80 + cp mod 0x40]"
      by (simp add: utf8_def)
    from 3 have "0 \<le> cp div 0x1000" "cp div 0x1000 < 0x10" by simp_all
    moreover have "0 \<le> cp div 0x40 mod 0x40" "cp div 0x40 mod 0x40 < 0x40" by simp_all
    moreover have "0 \<le> cp mod 0x40" "cp mod 0x40 < 0x40" by simp_all
    ultimately have "utf8Value (utf8 cp)
        = Some ((cp div 0x1000 * 0x40 + cp div 0x40 mod 0x40) * 0x40 + cp mod 0x40)"
      unfolding u by (rule utf8Value_three)
    then show ?thesis by (simp only: sextets_three)
  next
    case 4
    then have u: "utf8 cp = [0xF0 + cp div 0x40000, 0x80 + cp div 0x1000 mod 0x40,
                             0x80 + cp div 0x40 mod 0x40, 0x80 + cp mod 0x40]"
      by (simp add: utf8_def)
    from 4 assms have "0 \<le> cp div 0x40000" "cp div 0x40000 < 0x8" by simp_all
    moreover have "0 \<le> cp div 0x1000 mod 0x40" "cp div 0x1000 mod 0x40 < 0x40" by simp_all
    moreover have "0 \<le> cp div 0x40 mod 0x40" "cp div 0x40 mod 0x40 < 0x40" by simp_all
    moreover have "0 \<le> cp mod 0x40" "cp mod 0x40 < 0x40" by simp_all
    ultimately have "utf8Value (utf8 cp)
        = Some (((cp div 0x40000 * 0x40 + cp div 0x1000 mod 0x40) * 0x40 + cp div 0x40 mod 0x40)
                * 0x40 + cp mod 0x40)"
      unfolding u by (rule utf8Value_four)
    then show ?thesis by (simp only: sextets_four)
  qed
qed

lemma utf8_length:
  "length (utf8 cp) = (if cp < 0x80 then 1 else if cp < 0x800 then 2 else if cp < 0x10000 then 3 else 4)"
  by (simp add: utf8_def)

section \<open>The URL of a package on a CDN\<close>

lemma cdns_empty: "cdns cdn pkg (Some []) = cdns cdn pkg None"
  by (cases cdn) (simp_all add: skypack_def esm_def jspm_def unpkg_def truthy_def)

lemma cdns_lone_surrogate:
  assumes "version \<noteq> []" and "\<not> wellFormed version"
  shows "cdns cdn pkg (Some version) = Inl URIError"
proof -
  from assms(2) have "encodeURI version = Inl URIError" by (simp add: encodeURI_error)
  with assms(1) show ?thesis
    by (cases cdn) (simp_all add: skypack_def esm_def jspm_def unpkg_def truthy_def prepend_def)
qed

text \<open>
  Claim C3, amended. For every package name, each builder returns its template without a
  version for \<open>undefined\<close> and for the empty string. For a version that is not empty and
  has no lone surrogate it returns its template with \<open>@\<close> and the version in which every
  code point other than a letter, a digit and \<open>; / ? : @ & = + $ , - _ . ! ~ * ' ( ) #\<close>
  is replaced by \<open>%XX\<close>, in upper-case digits, for each octet of its UTF-8 encoding
  (\<open>percentEncode\<close>); so \<open>^\<close>, \<open>>\<close>, \<open><\<close> and the space are escaped, and \<open>=\<close> is not.
  For a version that is not empty and has a lone surrogate it throws \<open>URIError\<close>. The
  octets \<open>utf8\<close> of a code point are those that stand for it in UTF-8, in the shortest
  form, and a string has no lone surrogate when none of its code points is a surrogate.
\<close>

theorem cdn_url_percent_encoded:
  "cdns Skypack pkg None = Inr (js ''https://cdn.skypack.dev/'' @ pkg @ js ''/'')
   \<and> cdns Esm pkg None = Inr (js ''https://esm.sh/'' @ pkg)
   \<and> cdns Jspm pkg None = Inr (js ''https://jspm.dev/npm:'' @ pkg)
   \<and> cdns Unpkg pkg None = Inr (js ''https://unpkg.com/'' @ pkg)
   \<and> cdns Skypack pkg (Some []) = Inr (js ''https://cdn.skypack.dev/'' @ pkg @ js ''/'')
   \<and> cdns Esm pkg (Some []) = Inr (js ''https://esm.sh/'' @ pkg)
   \<and> cdns Jspm pkg (Some []) = Inr (js ''https://jspm.dev/npm:'' @ pkg)
   \<and> cdns Unpkg pkg (Some []) = Inr (js ''https://unpkg.com/'' @ pkg)
   \<and> (version \<noteq> [] \<and> wellFormed version \<longrightarrow>
        cdns Skypack pkg (Some version)
          = Inr (js ''https://cdn.skypack.dev/'' @ pkg @ js ''@'' @ percentEncode version)
        \<and> cdns Esm pkg (Some version)
          = Inr (js ''https://esm.sh/'' @ pkg @ js ''@'' @ percentEncode version)
        \<and> cdns Jspm pkg (Some version)
          = Inr (js ''https://jspm.dev/npm:'' @ pkg @ js ''@'' @ percentEncode version)
        \<and> cdns Unpkg pkg (Some version)
          = Inr (js ''https://unpkg.com/'' @ pkg @ js ''@'' @ percentEncode version))
   \<and> (version \<noteq> [] \<and> \<not> wellFormed version \<longrightarrow>
        cdns Skypack pkg (Some version) = Inl URIError
        \<and> cdns Esm pkg (Some version) = Inl URIError
        \<and> cdns Jspm pkg (Some version) = Inl URIError
        \<and> cdns Unpkg pkg (Some version) = Inl URIError)
   \<and> wellFormed version = list_all (\<lambda>cp. \<not> isSurrogate cp) (codePoints version)
   \<and> (0 \<le> cp \<and> cp < 0x110000 \<longrightarrow>
        utf8Value (utf8 cp) = Some cp
        \<and> length (utf8 cp)
          = (if cp < 0x80 then 1 else if cp < 0x800 then 2 else if cp < 0x10000 then 3 else 4))
   \<and> cdns Unpkg (js ''lodash'') (Some (js ''^4.17.0'')) = Inr (js ''https://unpkg.com/lodash@%5E4.17.0'')
   \<and> cdns Esm (js ''foo'') (Some (js ''>=1.0.0 <2.0.0''))
      = Inr (js ''https://esm.sh/foo@%3E=1.0.0%20%3C2.0.0'')
   \<and> cdns Jspm (js ''foo'') (Some [0xE9, 0x20AC, 0xD83D, 0xDE00])
      = Inr (js ''https://jspm.dev/npm:foo@%C3%A9%E2%82%AC%F0%9F%98%80'')
   \<and> cdns Skypack (js ''foo'') (Some (js ''1.2.3'')) = Inr (js ''https://cdn.skypack.dev/foo@1.2.3'')
   \<and> cdns Esm (js ''foo'') None = Inr (js ''https://esm.sh/foo'')"
proof -
  note n = cdns_None [of pkg]
  have e: "cdns Skypack pkg (Some []) = Inr (js ''https://cdn.skypack.dev/'' @ pkg @ js ''/'')"
    "cdns Esm pkg (Some []) = Inr (js ''https://esm.sh/'' @ pkg)"
    "cdns Jspm pkg (Some []) = Inr (js ''https://jspm.dev/npm:'' @ pkg)"
    "cdns Unpkg pkg (Some []) = Inr (js ''https://unpkg.com/'' @ pkg)"
    by (simp_all only: cdns_empty n)
  have v: "version \<noteq> [] \<and> wellFormed version \<longrightarrow>
        cdns Skypack pkg (Some version)
          = Inr (js ''https://cdn.skypack.dev/'' @ pkg @ js ''@'' @ percentEncode version)
        \<and> cdns Esm pkg (Some version)
          = Inr (js ''https://esm.sh/'' @ pkg @ js ''@'' @ percentEncode version)
        \<and> cdns Jspm pkg (Some version)
          = Inr (js ''https://jspm.dev/npm:'' @ pkg @ js ''@'' @ percentEncode version)
        \<and> cdns Unpkg pkg (Some version)
          = Inr (js ''https://unpkg.com/'' @ pkg @ js ''@'' @ percentEncode version)"
  proof (intro impI, elim conjE)
    assume ne: "version \<noteq> []" and w: "wellFormed version"
    from cdns_Some [OF ne encodeURI_percentEncode [OF w], of pkg]
    show "cdns Skypack pkg (Some version)
          = Inr (js ''https://cdn.skypack.dev/'' @ pkg @ js ''@'' @ percentEncode version)
        \<and> cdns Esm pkg (Some version)
          = Inr (js ''https://esm.sh/'' @ pkg @ js ''@'' @ percentEncode version)
        \<and> cdns Jspm pkg (Some version)
          = Inr (js ''https://jspm.dev/npm:'' @ pkg @ js ''@'' @ percentEncode version)
        \<and> cdns Unpkg pkg (Some version)
          = Inr (js ''https://unpkg.com/'' @ pkg @ js ''@'' @ percentEncode version)"
      by (intro conjI)
  qed
  have t: "version \<noteq> [] \<and> \<not> wellFormed version \<longrightarrow>
        cdns Skypack pkg (Some version) = Inl URIError
        \<and> cdns Esm pkg (Some version) = Inl URIError
        \<and> cdns Jspm pkg (Some version) = Inl URIError
        \<and> cdns Unpkg pkg (Some version) = Inl URIError"
    by (intro impI conjI cdns_lone_surrogate) simp_all
  have w: "wellFormed version = list_all (\<lambda>cp. \<not> isSurrogate cp) (codePoints version)"
    by (rule wellFormed_codePoints)
  have u: "0 \<le> cp \<and> cp < 0x110000 \<longrightarrow>
        utf8Value (utf8 cp) = Some cp
        \<and> length (utf8 cp)
          = (if cp < 0x80 then 1 else if cp < 0x800 then 2 else if cp < 0x10000 then 3 else 4)"
    by (intro impI conjI utf8_length utf8Value_utf8) simp_all
  have x1: "cdns Unpkg (js ''lodash'') (Some (js ''^4.17.0'')) = Inr (js ''https://unpkg.com/lodash@%5E4.17.0'')"
    by code_simp
  have x2: "cdns Esm (js ''foo'') (Some (js ''>=1.0.0 <2.0.0''))
      = Inr (js ''https://esm.sh/foo@%3E=1.0.0%20%3C2.0.0'')"
    by code_simp
  have x3: "cdns Jspm (js ''foo'') (Some [0xE9, 0x20AC, 0xD83D, 0xDE00])
      = Inr (js ''https://jspm.dev/npm:foo@%C3%A9%E2%82%AC%F0%9F%98%80'')"
    by code_simp
  have x4: "cdns Skypack (js ''foo'') (Some (js ''1.2.3'')) = Inr (js ''https://cdn.skypack.dev/foo@1.2.3'')"
    by code_simp
  have x5: "cdns Esm (js ''foo'') None = Inr (js ''https://esm.sh/foo'')" by code_simp
  from n e v t w u x1 x2 x3 x4 x5 show ?thesis by (intro conjI)
qed

theorem cdn_url_percent_encoded_witness:
  "cdns Unpkg (js ''@scope/pkg'') (Some (js ''^1.0.0 || >=2.5.0 <3'' @ [0xE9, 0xD83D, 0xDE00]))
     = Inr (js ''https://unpkg.com/@scope/pkg@%5E1.0.0%20%7C%7C%20%3E=2.5.0%20%3C3%C3%A9%F0%9F%98%80'')
   \<and> cdns Skypack (js ''@scope/pkg'') (Some (js ''1.0.0-'' @ [0xDE00, 0xD83D])) = Inl URIError
   \<and> utf8Value (utf8 0x20AC) = Some 0x20AC \<and> length (utf8 0x20AC) = 3"
proof -
  let ?v = "js ''^1.0.0 || >=2.5.0 <3'' @ [0xE9, 0xD83D, 0xDE00]"
  let ?l = "js ''1.0.0-'' @ [0xDE00, 0xD83D]"
  have h1: "?v \<noteq> [] \<and> wellFormed ?v" by code_simp
  have h2: "?l \<noteq> [] \<and> \<not> wellFormed ?l" by code_simp
  have h3: "(0::int) \<le> 0x20AC \<and> (0x20AC::int) < 0x110000" by simp
  have p: "js ''https://unpkg.com/'' @ js ''@scope/pkg'' @ js ''@'' @ percentEncode ?v
           = js ''https://unpkg.com/@scope/pkg@%5E1.0.0%20%7C%7C%20%3E=2.5.0%20%3C3%C3%A9%F0%9F%98%80''"
    by code_simp
  from cdn_url_percent_encoded [of "js ''@scope/pkg''" ?v 0] h1
  have "cdns Unpkg (js ''@scope/pkg'') (Some ?v)
          = Inr (js ''https://unpkg.com/'' @ js ''@scope/pkg'' @ js ''@'' @ percentEncode ?v)"
    by blast
  then have a: "cdns Unpkg (js ''@scope/pkg'') (Some ?v)
     = Inr (js ''https://unpkg.com/@scope/pkg@%5E1.0.0%20%7C%7C%20%3E=2.5.0%20%3C3%C3%A9%F0%9F%98%80'')"
    by (simp only: p)
  from cdn_url_percent_encoded [of "js ''@scope/pkg''" ?l 0] h2
  have b: "cdns Skypack (js ''@scope/pkg'') (Some ?l) = Inl URIError" by blast
  from cdn_url_percent_encoded [of "[]" "[]" "0x20AC"] h3
  have c: "utf8Value (utf8 0x20AC) = Some 0x20AC \<and> length (utf8 0x20AC) = 3" by simp
  from a b c show ?thesis by (intro conjI) simp_all
qed

theorem cdn_url_percent_encoded_counterexample:
  "cdns Skypack (js ''foo'') (Some [0xD800]) = Inl URIError
   \<and> cdns Skypack (js ''foo'') (Some (js ''>=1.2.3'')) = Inr (js ''https://cdn.skypack.dev/foo@%3E=1.2.3'')
   \<and> cdns Skypack (js ''foo'') (Some []) = Inr (js ''https://cdn.skypack.dev/foo/'')"
proof -
  show ?thesis by code_simp
qed

section \<open>The outcomes of an entry\<close>

lemma cdns_throws_iff:
  "cdns cdn pkg version = Inl URIError \<longleftrightarrow> truthy version \<and> \<not> wellFormed (the version)"
proof (cases "cdns cdn pkg version")
  case (Inl e)
  from cdns_error [OF Inl] Inl show ?thesis by (cases e) simp
next
  case (Inr url)
  with cdns_total [of cdn pkg version] show ?thesis by auto
qed

lemma wellFormed_wildcard: "wellFormed []" "wellFormed (js ''*'')"
  by (simp_all add: js_def isLeadingSurrogate_def isTrailingSurrogate_def)

lemma importURL_throws_iff:
  "importURL sv cdn key value = Inr (Inl URIError) \<longleftrightarrow>
     \<not> startsWith key (js ''@types'')
     \<and> (if truthy (valid sv value) then \<not> wellFormed (the (valid sv value))
        else if truthy (validRange sv value) then \<not> wellFormed (the (validRange sv value))
        else \<not> wellFormed value
             \<and> \<not> startsWith value (js ''git+'') \<and> \<not> startsWith value (js ''git:'')
             \<and> \<not> startsWith key (js ''.'') \<and> \<not> startsWith key (js ''~'')
             \<and> \<not> startsWith key (js ''/'')
             \<and> \<not> startsWith value (js ''http:'') \<and> \<not> startsWith value (js ''https:'')
             \<and> 0x2F \<notin> set value)"
proof (cases "startsWith key (js ''@types'')")
  case True
  then show ?thesis by (simp add: importURL_def)
next
  case nt: False
  show ?thesis
  proof (cases "truthy (valid sv value)")
    case True
    with nt show ?thesis by (simp add: importURL_def Let_def cdns_throws_iff)
  next
    case nv: False
    show ?thesis
    proof (cases "truthy (validRange sv value)")
      case True
      with nt nv show ?thesis by (simp add: importURL_def Let_def cdns_throws_iff)
    next
      case nr: False
      have k: "includes_js [Some (js ''.''), Some (js ''~''), Some (js ''.''), Some (js ''/'')] (charAt0 key)
               \<longleftrightarrow> startsWith key (js ''.'') \<or> startsWith key (js ''~'') \<or> startsWith key (js ''/'')"
        by (cases key) (auto simp add: includes_js_def charAt0_def startsWith_def js_def)
      show ?thesis
      proof (cases "value = [] \<or> value = js ''*''")
        case True
        then have "wellFormed value" using wellFormed_wildcard by auto
        with nt nv nr True show ?thesis
          by (simp add: importURL_def Let_def cdns_throws_iff truthy_def)
      next
        case False
        then have "truthy (Some value)" by (simp add: truthy_def)
        with nt nv nr False k show ?thesis
          by (simp add: importURL_def Let_def cdns_throws_iff includes_js_def)
      qed
    qed
  qed
qed

lemma throws_iff: "throws sv cdn e \<longleftrightarrow> importURL sv cdn (fst e) (snd e) = Inr (Inl URIError)"
proof (cases "importURL sv cdn (fst e) (snd e)")
  case (Inl w)
  then show ?thesis by (simp add: throws_def)
next
  case (Inr r)
  then show ?thesis
  proof (cases r)
    case (Inl err)
    with Inr show ?thesis by (cases err) (simp add: throws_def)
  next
    case r: (Inr url)
    with Inr show ?thesis by (simp add: throws_def)
  qed
qed

lemma addImports_error:
  assumes "\<exists>e \<in> set es. importURL sv cdn (fst e) (snd e) = Inr (Inl URIError)"
  shows "addImports sv cdn es st = Inl URIError"
proof -
  from assms have "\<exists>e \<in> set es. throws sv cdn e" by (simp only: throws_iff)
  then obtain err where "addImports sv cdn es st = Inl err"
    using addImports_throws [of sv cdn es st] by blast
  then show ?thesis by (cases err) simp
qed

lemma addImports_completes:
  assumes "\<forall>e \<in> set es. importURL sv cdn (fst e) (snd e) \<noteq> Inr (Inl URIError)"
  shows "\<exists>imps. addImports sv cdn es st = Inr (imps, snd st @ warnings sv cdn es)
             \<and> map_of imps = map_of (fst st) ++ map_of (rev (writes sv cdn es))"
    and "length (writes sv cdn es) + length (warnings sv cdn es) = length es"
proof -
  from assms have nt: "\<forall>e \<in> set es. \<not> throws sv cdn e" by (simp only: throws_iff)
  show "length (writes sv cdn es) + length (warnings sv cdn es) = length es"
    by (rule writes_warnings_length [OF nt])
  from addImports_total [OF nt] obtain st' where r: "addImports sv cdn es st = Inr st'" ..
  note s = addImports_state [OF r]
  have "addImports sv cdn es st = Inr (fst st', snd st @ warnings sv cdn es)"
    using r s by (cases st') simp
  moreover have "map_of (fst st') = map_of (fst st) ++ map_of (rev (writes sv cdn es))"
    using s by simp
  ultimately show "\<exists>imps. addImports sv cdn es st = Inr (imps, snd st @ warnings sv cdn es)
             \<and> map_of imps = map_of (fst st) ++ map_of (rev (writes sv cdn es))"
    by blast
qed

lemma entry_outcome:
  "(\<exists>url. importURL sv cdn key value = Inr (Inr url)
       \<and> addImport sv cdn (key, value) st = Inr (assign (fst st) key url, snd st)
       \<and> map_of (assign (fst st) key url) = (map_of (fst st))(key \<mapsto> url))
   \<or> (\<exists>w. importURL sv cdn key value = Inl w
       \<and> addImport sv cdn (key, value) st = Inr (fst st, snd st @ [w]))
   \<or> (importURL sv cdn key value = Inr (Inl URIError)
       \<and> addImport sv cdn (key, value) st = Inl URIError)"
proof (cases "importURL sv cdn key value")
  case (Inl w)
  then show ?thesis by (simp add: addImport_def)
next
  case (Inr r)
  show ?thesis
  proof (cases r)
    case (Inl err)
    with Inr show ?thesis by (cases err) (simp add: addImport_def)
  next
    case r: (Inr url)
    with Inr show ?thesis by (simp add: addImport_def map_of_assign)
  qed
qed

text \<open>
  Claim C7, amended. Processing an entry has one of three outcomes: its URL is stored
  under its name and the other names are untouched; or the entry is skipped with one
  warning and nothing is stored; or building the URL throws \<open>URIError\<close>. It throws exactly
  when the name does not start with \<open>@types\<close> and the version handed to the builder has a
  lone surrogate: the version that \<open>semver\<close> gives back, else the range that it gives
  back, else the specifier itself where no test for a skip applies to the entry. So an
  entry throws in no case when neither its specifier nor an answer of \<open>semver\<close> has a
  lone surrogate. A run over the entries throws exactly when one of its entries does;
  otherwise it completes, its warnings are those of the skipped entries in order, the
  returned mapping is the earlier one with the stored entries laid over it, and every
  entry has been stored or skipped.
\<close>

theorem entry_stored_skipped_or_thrown:
  "((\<exists>url. importURL sv cdn key value = Inr (Inr url)
       \<and> addImport sv cdn (key, value) st = Inr (assign (fst st) key url, snd st)
       \<and> map_of (assign (fst st) key url) = (map_of (fst st))(key \<mapsto> url))
    \<or> (\<exists>w. importURL sv cdn key value = Inl w
       \<and> addImport sv cdn (key, value) st = Inr (fst st, snd st @ [w]))
    \<or> (importURL sv cdn key value = Inr (Inl URIError)
       \<and> addImport sv cdn (key, value) st = Inl URIError))
   \<and> (importURL sv cdn key value = Inr (Inl URIError) \<longleftrightarrow>
        \<not> startsWith key (js ''@types'')
        \<and> (if truthy (valid sv value) then \<not> wellFormed (the (valid sv value))
           else if truthy (validRange sv value) then \<not> wellFormed (the (validRange sv value))
           else \<not> wellFormed value
                \<and> \<not> startsWith value (js ''git+'') \<and> \<not> startsWith value (js ''git:'')
                \<and> \<not> startsWith key (js ''.'') \<and> \<not> startsWith key (js ''~'')
                \<and> \<not> startsWith key (js ''/'')
                \<and> \<not> startsWith value (js ''http:'') \<and> \<not> startsWith value (js ''https:'')
                \<and> 0x2F \<notin> set value))
   \<and> ((\<forall>s r. valid sv s = Some r \<longrightarrow> wellFormed r)
        \<and> (\<forall>s r. validRange sv s = Some r \<longrightarrow> wellFormed r) \<and> wellFormed value
       \<longrightarrow> importURL sv cdn key value \<noteq> Inr (Inl URIError))
   \<and> (addImports sv cdn es st = Inl URIError
        \<longleftrightarrow> (\<exists>e \<in> set es. importURL sv cdn (fst e) (snd e) = Inr (Inl URIError)))
   \<and> ((\<forall>e \<in> set es. importURL sv cdn (fst e) (snd e) \<noteq> Inr (Inl URIError)) \<longrightarrow>
        (\<exists>imps. addImports sv cdn es st = Inr (imps, snd st @ warnings sv cdn es)
           \<and> map_of imps = map_of (fst st) ++ map_of (rev (writes sv cdn es)))
        \<and> length (writes sv cdn es) + length (warnings sv cdn es) = length es)"
proof -
  note a = entry_outcome [of sv cdn key "value" st]
  note b = importURL_throws_iff [of sv cdn key "value"]
  have c: "(\<forall>s r. valid sv s = Some r \<longrightarrow> wellFormed r)
        \<and> (\<forall>s r. validRange sv s = Some r \<longrightarrow> wellFormed r) \<and> wellFormed value
       \<longrightarrow> importURL sv cdn key value \<noteq> Inr (Inl URIError)"
  proof (intro impI, elim conjE)
    assume "\<forall>s r. valid sv s = Some r \<longrightarrow> wellFormed r"
      and "\<forall>s r. validRange sv s = Some r \<longrightarrow> wellFormed r" and "wellFormed value"
    then have "\<not> throws sv cdn (key, value)" by (intro throws_wellFormed) simp_all
    then show "importURL sv cdn key value \<noteq> Inr (Inl URIError)" by (simp add: throws_iff)
  qed
  have d: "addImports sv cdn es st = Inl URIError
        \<longleftrightarrow> (\<exists>e \<in> set es. importURL sv cdn (fst e) (snd e) = Inr (Inl URIError))"
  proof
    assume "addImports sv cdn es st = Inl URIError"
    then have "\<exists>e \<in> set es. throws sv cdn e"
      using addImports_throws [of sv cdn es st] by blast
    then show "\<exists>e \<in> set es. importURL sv cdn (fst e) (snd e) = Inr (Inl URIError)"
      by (simp only: throws_iff)
  next
    assume "\<exists>e \<in> set es. importURL sv cdn (fst e) (snd e) = Inr (Inl URIError)"
    then show "addImports sv cdn es st = Inl URIError" by (rule addImports_error)
  qed
  have e: "(\<forall>e \<in> set es. importURL sv cdn (fst e) (snd e) \<noteq> Inr (Inl URIError)) \<longrightarrow>
        (\<exists>imps. addImports sv cdn es st = Inr (imps, snd st @ warnings sv cdn es)
           \<and> map_of imps = map_of (fst st) ++ map_of (rev (writes sv cdn es)))
        \<and> length (writes sv cdn es) + length (warnings sv cdn es) = length es"
    using addImports_completes(1) [of es sv cdn st] addImports_completes(2) [of es sv cdn]
    by (intro impI conjI)
  from a b c d e show ?thesis by (intro conjI)
qed

theorem entry_stored_skipped_or_thrown_witness:
  "addImports semver7 Skypack
     [(js ''@types/b'', [0xD800]), (js ''foo'', js ''git+'' @ [0xD800]),
      (js ''bar'', js ''latest''), (js ''baz'', js ''v1.2.3'')]
     ([], [])
   = Inr ([(js ''bar'', js ''https://cdn.skypack.dev/bar@latest''),
           (js ''baz'', js ''https://cdn.skypack.dev/baz@1.2.3'')],
          [TypeOnly (js ''@types/b''), GitDependency (js ''git+'' @ [0xD800]) (js ''foo'')])
   \<and> length (writes semver7 Skypack
         [(js ''@types/b'', [0xD800]), (js ''foo'', js ''git+'' @ [0xD800]),
          (js ''bar'', js ''latest''), (js ''baz'', js ''v1.2.3'')])
       + length (warnings semver7 Skypack
         [(js ''@types/b'', [0xD800]), (js ''foo'', js ''git+'' @ [0xD800]),
          (js ''bar'', js ''latest''), (js ''baz'', js ''v1.2.3'')])
       = 4
   \<and> addImports semver7 Skypack [(js ''baz'', js ''v1.2.3''), (js ''foo'', js ''1.x'' @ [0xD800])]
        ([], [])
       = Inl URIError
   \<and> importURL semver7 Skypack (js ''foo'') (js ''1.x'' @ [0xD800]) = Inr (Inl URIError)
   \<and> importURL semver7 Skypack (js ''foo'') (js ''^4.17.0'') \<noteq> Inr (Inl URIError)"
proof -
  let ?es = "[(js ''@types/b'', [0xD800]), (js ''foo'', js ''git+'' @ [0xD800]),
              (js ''bar'', js ''latest''), (js ''baz'', js ''v1.2.3'')]"
  let ?ts = "[(js ''baz'', js ''v1.2.3''), (js ''foo'', js ''1.x'' @ [0xD800])]"
  have h: "\<forall>e \<in> set ?es. importURL semver7 Skypack (fst e) (snd e) \<noteq> Inr (Inl URIError)"
    by code_simp
  from entry_stored_skipped_or_thrown [of semver7 Skypack "[]" "[]" "([], [])" ?es] h
  have n: "length (writes semver7 Skypack ?es) + length (warnings semver7 Skypack ?es) = 4"
    by simp
  have r: "addImports semver7 Skypack ?es ([], [])
   = Inr ([(js ''bar'', js ''https://cdn.skypack.dev/bar@latest''),
           (js ''baz'', js ''https://cdn.skypack.dev/baz@1.2.3'')],
          [TypeOnly (js ''@types/b''), GitDependency (js ''git+'' @ [0xD800]) (js ''foo'')])"
    by code_simp
  have k: "\<not> startsWith (js ''foo'') (js ''@types'')
        \<and> (if truthy (valid semver7 (js ''1.x'' @ [0xD800]))
           then \<not> wellFormed (the (valid semver7 (js ''1.x'' @ [0xD800])))
           else if truthy (validRange semver7 (js ''1.x'' @ [0xD800]))
           then \<not> wellFormed (the (validRange semver7 (js ''1.x'' @ [0xD800])))
           else \<not> wellFormed (js ''1.x'' @ [0xD800])
                \<and> \<not> startsWith (js ''1.x'' @ [0xD800]) (js ''git+'')
                \<and> \<not> startsWith (js ''1.x'' @ [0xD800]) (js ''git:'')
                \<and> \<not> startsWith (js ''foo'') (js ''.'') \<and> \<not> startsWith (js ''foo'') (js ''~'')
                \<and> \<not> startsWith (js ''foo'') (js ''/'')
                \<and> \<not> startsWith (js ''1.x'' @ [0xD800]) (js ''http:'')
                \<and> \<not> startsWith (js ''1.x'' @ [0xD800]) (js ''https:'')
                \<and> 0x2F \<notin> set (js ''1.x'' @ [0xD800]))"
    by code_simp
  from entry_stored_skipped_or_thrown
         [of semver7 Skypack "js ''foo''" "js ''1.x'' @ [0xD800]" "([], [])" ?ts] k
  have t: "importURL semver7 Skypack (js ''foo'') (js ''1.x'' @ [0xD800]) = Inr (Inl URIError)"
    by blast
  then have "\<exists>e \<in> set ?ts. importURL semver7 Skypack (fst e) (snd e) = Inr (Inl URIError)"
    by simp
  with entry_stored_skipped_or_thrown
         [of semver7 Skypack "js ''foo''" "js ''1.x'' @ [0xD800]" "([], [])" ?ts]
  have u: "addImports semver7 Skypack ?ts ([], []) = Inl URIError" by blast
  have w: "wellFormed (js ''^4.17.0'')" by code_simp
  from entry_stored_skipped_or_thrown
         [of semver7 Skypack "js ''foo''" "js ''^4.17.0''" "([], [])" "[]"]
       semver7_wellFormed w
  have v: "importURL semver7 Skypack (js ''foo'') (js ''^4.17.0'') \<noteq> Inr (Inl URIError)"
    by blast
  from r n u t v show ?thesis by (intro conjI)
qed

theorem entry_stored_skipped_or_thrown_counterexample:
  "addImport semver7 Skypack (js ''foo'', [0xD800]) ([], []) = Inl URIError
   \<and> addImports semver7 Skypack [(js ''foo'', [0xD800]), (js ''bar'', js ''1.2.3'')] ([], [])
       = Inl URIError"
proof -
  show ?thesis by code_simp
qed

section \<open>\<open>QuoteJSONString\<close> code point by code point\<close>

lemma lowerHexDigit_digitOf:
  assumes "0 \<le> n" and "n < 16"
  shows "lowerHexDigit n = digitOf ''0123456789abcdef'' n"
proof -
  from assms have "n \<in> {0, 1, 2, 3, 4, 5, 6, 7, 8, 9, 10, 11, 12, 13, 14, 15}" by simp arith
  then show ?thesis
    by (elim insertE emptyE) (simp_all add: lowerHexDigit_def digitOf_def)
qed

lemma UnicodeEscape_digitOf:
  "UnicodeEscape c
   = 0x5C # js ''u'' @ map (\<lambda>d. digitOf ''0123456789abcdef'' (uint c div d mod 16))
                          [0x1000, 0x100, 0x10, 1]"
proof -
  have b: "0 \<le> uint c" "uint c < 0x10000" by (rule uint16_bounds)+
  then have h: "0 \<le> uint c div 0x1000" "uint c div 0x1000 < 16"
    by (simp_all add: pos_imp_zdiv_nonneg_iff)
  then have m: "uint c div 0x1000 mod 16 = uint c div 0x1000" by simp
  have d1: "lowerHexDigit (uint c div 0x1000) = digitOf ''0123456789abcdef'' (uint c div 0x1000)"
    by (rule lowerHexDigit_digitOf [OF h])
  have d2: "lowerHexDigit (uint c div 0x100 mod 0x10)
            = digitOf ''0123456789abcdef'' (uint c div 0x100 mod 0x10)"
    by (rule lowerHexDigit_digitOf) simp_all
  have d3: "lowerHexDigit (uint c div 0x10 mod 0x10)
            = digitOf ''0123456789abcdef'' (uint c div 0x10 mod 0x10)"
    by (rule lowerHexDigit_digitOf) simp_all
  have d4: "lowerHexDigit (uint c mod 0x10) = digitOf ''0123456789abcdef'' (uint c mod 0x10)"
    by (rule lowerHexDigit_digitOf) simp_all
  have u: "js ''u'' = [0x75]" by (simp add: js_def)
  show ?thesis
    unfolding UnicodeEscape_def d1 d2 d3 d4 u by (simp add: m)
qed

lemma quoteUnit_jsonEscape: "quoteUnit c = jsonEscape (uint c)"
proof -
  consider "c = 0x08" | "c = 0x09" | "c = 0x0A" | "c = 0x0C" | "c = 0x0D" | "c = 0x22" | "c = 0x5C"
    | "c \<noteq> 0x08" "c \<noteq> 0x09" "c \<noteq> 0x0A" "c \<noteq> 0x0C" "c \<noteq> 0x0D" "c \<noteq> 0x22" "c \<noteq> 0x5C"
    by blast
  then show ?thesis
  proof cases
    case 8
    have n: "uint c \<noteq> 0x08" "uint c \<noteq> 0x09" "uint c \<noteq> 0x0A" "uint c \<noteq> 0x0C"
      "uint c \<noteq> 0x0D" "uint c \<noteq> 0x22" "uint c \<noteq> 0x5C"
      using 8 by (simp_all add: word_uint_eq_iff)
    have s: "isSurrogate (uint c) \<longleftrightarrow> isLeadingSurrogate c \<or> isTrailingSurrogate c"
      by (auto simp add: surrogate_uint isSurrogate_def)
    have l: "c < 0x20 \<longleftrightarrow> uint c < 0x20" by (simp add: word_less_def)
    have u: "utf16 (uint c) = [c]" using uint16_bounds [of c] by (simp add: utf16_def)
    show ?thesis
      using 8 n by (simp add: quoteUnit_def jsonEscape_def s l u UnicodeEscape_digitOf)
  qed (simp_all add: quoteUnit_def jsonEscape_def js_def)
qed

lemma utf16_pair:
  assumes "isLeadingSurrogate c" and "isTrailingSurrogate d"
  shows "utf16 (UTF16SurrogatePairToCodePoint c d) = [c, d]"
proof -
  define x where "x = uint c - 0xD800"
  define y where "y = uint d - 0xDC00"
  from assms have y: "0 \<le> y" "y < 0x400" unfolding y_def by (simp_all add: surrogate_uint)
  have cp: "UTF16SurrogatePairToCodePoint c d - 0x10000 = x * 0x400 + y"
    by (simp add: UTF16SurrogatePairToCodePoint_def x_def y_def)
  from y have dv: "(x * 0x400 + y) div 0x400 = x" by simp
  from y have md: "(x * 0x400 + y) mod 0x400 = y" by simp
  have c: "word_of_int (0xD800 + x) = c" unfolding x_def by simp
  have d: "word_of_int (0xDC00 + y) = d" unfolding y_def by simp
  from pair_supplementary [OF assms] have "\<not> UTF16SurrogatePairToCodePoint c d < 0x10000" by simp
  then show ?thesis by (simp only: utf16_def if_False cp dv md c d)
qed

lemma jsonEscape_pair:
  assumes "isLeadingSurrogate c" and "isTrailingSurrogate d"
  shows "jsonEscape (UTF16SurrogatePairToCodePoint c d) = [c, d]"
proof -
  let ?cp = "UTF16SurrogatePairToCodePoint c d"
  from pair_supplementary [OF assms] have g: "0x10000 \<le> ?cp" .
  then have "jsonEscape ?cp = utf16 ?cp"
    by (simp add: jsonEscape_def isSurrogate_def)
  then show ?thesis by (simp only: utf16_pair [OF assms])
qed

lemma quoteUnits_jsonEscape: "quoteUnits s = concat (map jsonEscape (codePoints s))"
proof (induction s rule: quoteUnits.induct)
  case 1
  show ?case by simp
next
  case (2 c)
  show ?case by (simp add: quoteUnit_jsonEscape)
next
  case (3 c d s)
  show ?case
  proof (cases "isLeadingSurrogate c \<and> isTrailingSurrogate d")
    case True
    then have l: "isLeadingSurrogate c" and t: "isTrailingSurrogate d" by simp_all
    from True "3.IH"(1) have "quoteUnits s = concat (map jsonEscape (codePoints s))" by simp
    with True show ?thesis
      by (simp add: codePoints_pair [OF l t] jsonEscape_pair [OF l t] del: codePoints.simps)
  next
    case False
    with "3.IH"(2) have "quoteUnits (d # s) = concat (map jsonEscape (codePoints (d # s)))" by simp
    moreover have "quoteUnits (c # d # s) = quoteUnit c @ quoteUnits (d # s)"
      by (subst quoteUnits.simps) (rule if_not_P [OF False])
    ultimately show ?thesis
      by (simp add: codePoints_unit [OF False] quoteUnit_jsonEscape
               del: codePoints.simps quoteUnits.simps)
  qed
qed

lemma QuoteJSONString_jsonQuote: "QuoteJSONString s = jsonQuote s"
  by (simp add: QuoteJSONString_def jsonQuote_def quoteUnits_jsonEscape)

lemma join_memberLines:
  assumes "m \<noteq> []"
  shows "join (js '','' @ [0x0A])
           (map (\<lambda>(k, v). js ''    '' @ jsonQuote k @ js '': '' @ jsonQuote v) m) @ [0x0A]
         = memberLines m"
  using assms
proof (induction m rule: memberLines.induct)
  case 1
  then show ?case by simp
next
  case (2 p)
  show ?case by (simp add: join_def split_def)
next
  case (3 p q ps)
  then have "join (js '','' @ [0x0A])
           (map (\<lambda>(k, v). js ''    '' @ jsonQuote k @ js '': '' @ jsonQuote v) (q # ps)) @ [0x0A]
         = memberLines (q # ps)" by simp
  then show ?case by (simp add: join_def split_def)
qed

lemma layout_document: "layout m = document m"
proof -
  have q0: "[0x22] @ js ''imports'' @ [0x22] = jsonQuote (js ''imports'')"
    by (simp add: QuoteJSONString_jsonQuote [symmetric] QuoteJSONString_def js_def quoteUnit_def
          isLeadingSurrogate_def isTrailingSurrogate_def)
  then have "([0x22] @ js ''imports'' @ [0x22]) @ t = jsonQuote (js ''imports'') @ t" for t
    by (simp only:)
  then have q: "[0x22] @ js ''imports'' @ [0x22] @ t = jsonQuote (js ''imports'') @ t" for t
    by (simp only: append_assoc)
  show ?thesis
  proof (cases "m = []")
    case True
    then show ?thesis using q0 by (simp add: layout_def document_def)
  next
    case False
    let ?f = "\<lambda>(k, v). js ''    '' @ jsonQuote k @ js '': '' @ jsonQuote v"
    from join_memberLines [OF False]
    have "(join (js '','' @ [0x0A]) (map ?f m) @ [0x0A]) @ t = memberLines m @ t" for t
      by (simp only:)
    then have j: "join (js '','' @ [0x0A]) (map ?f m) @ [0x0A] @ t = memberLines m @ t" for t
      by (simp only: append_assoc)
    from False show ?thesis
      by (simp only: layout_def document_def if_False q j QuoteJSONString_jsonQuote)
  qed
qed

section \<open>The text of the import map\<close>

lemma stringify_document:
  "JSON_stringify (importMapValue (importMap m)) (js ''  '') = document m"
  by (simp only: stringify_importMap layout_document)

text \<open>
  Claim C9. The document that is written has the single field \<open>imports\<close>, which holds
  the mapping, and no field \<open>scopes\<close>; its text is the JSON document
  \<open>{ "imports": { name: url, ... } }\<close> indented by two spaces: the field \<open>imports\<close> at
  two spaces, and one line for each name at four spaces, in the order of the mapping, with
  a comma after all but the last; an empty mapping is written \<open>{}\<close>. Names and URLs are
  quoted as JSON strings.
\<close>

theorem import_map_written_document:
  "scopes (importMap m) = None
   \<and> importMapValue (importMap m) = Object [(js ''imports'', recordValue m)]
   \<and> JSON_stringify (importMapValue (importMap m)) (js ''  '') = document m
   \<and> main sv packageJson cdn dev optional peer
       = (case getImports sv packageJson (mainKeys dev optional peer) cdn of
            Inl e \<Rightarrow> Inl e
          | Inr st \<Rightarrow> Inr (document (fst st), snd st))"
proof -
  have a: "scopes (importMap m) = None" by (simp add: importMap_def)
  have b: "importMapValue (importMap m) = Object [(js ''imports'', recordValue m)]"
    by (simp add: importMap_def importMapValue_def)
  have c: "JSON_stringify (importMapValue (importMap m)) (js ''  '') = document m"
    by (rule stringify_document)
  have d: "main sv packageJson cdn dev optional peer
       = (case getImports sv packageJson (mainKeys dev optional peer) cdn of
            Inl e \<Rightarrow> Inl e
          | Inr st \<Rightarrow> Inr (document (fst st), snd st))"
    by (simp add: main_def stringify_document Let_def split: sum.splits)
  from a b c d show ?thesis by (intro conjI)
qed

theorem import_map_written_document_witness:
  "JSON_stringify
     (importMapValue (importMap
        [(js ''foo'', js ''https://cdn.skypack.dev/foo@1.2.3''),
         (js ''a'' @ [0x22] @ js ''b'', js ''x'' @ [0x5C, 0x0A, 0xD800, 0x01, 0xD83D, 0xDE00, 0xE9])]))
     (js ''  '')
   = js ''{'' @ [0x0A]
     @ js ''  '' @ [0x22] @ js ''imports'' @ [0x22] @ js '': {'' @ [0x0A]
     @ js ''    '' @ [0x22] @ js ''foo'' @ [0x22] @ js '': ''
       @ [0x22] @ js ''https://cdn.skypack.dev/foo@1.2.3'' @ [0x22] @ js '','' @ [0x0A]
     @ js ''    '' @ [0x22] @ js ''a'' @ [0x5C, 0x22] @ js ''b'' @ [0x22] @ js '': ''
       @ [0x22] @ js ''x'' @ [0x5C, 0x5C] @ [0x5C] @ js ''n'' @ [0x5C] @ js ''ud800''
       @ [0x5C] @ js ''u0001'' @ [0xD83D, 0xDE00, 0xE9] @ [0x22] @ [0x0A]
     @ js ''  }'' @ [0x0A]
     @ js ''}''
   \<and> JSON_stringify (importMapValue (importMap [])) (js ''  '')
     = js ''{'' @ [0x0A]
       @ js ''  '' @ [0x22] @ js ''imports'' @ [0x22] @ js '': {}'' @ [0x0A]
       @ js ''}''
   \<and> main semver7
        (manifest [(js ''foo'', js ''1.2.3''), (js ''g'', js ''git+https://x.com/y''),
                   (js ''bar'', js ''latest'')])
        Skypack False False False
     = Inr (js ''{'' @ [0x0A]
            @ js ''  '' @ [0x22] @ js ''imports'' @ [0x22] @ js '': {'' @ [0x0A]
            @ js ''    '' @ [0x22] @ js ''foo'' @ [0x22] @ js '': ''
              @ [0x22] @ js ''https://cdn.skypack.dev/foo@1.2.3'' @ [0x22] @ js '','' @ [0x0A]
            @ js ''    '' @ [0x22] @ js ''bar'' @ [0x22] @ js '': ''
              @ [0x22] @ js ''https://cdn.skypack.dev/bar@latest'' @ [0x22] @ [0x0A]
            @ js ''  }'' @ [0x0A]
            @ js ''}'',
            [GitDependency (js ''git+https://x.com/y'') (js ''g'')])"
proof -
  let ?m = "[(js ''foo'', js ''https://cdn.skypack.dev/foo@1.2.3''),
             (js ''a'' @ [0x22] @ js ''b'', js ''x'' @ [0x5C, 0x0A, 0xD800, 0x01, 0xD83D, 0xDE00, 0xE9])]"
  let ?p = "manifest [(js ''foo'', js ''1.2.3''), (js ''g'', js ''git+https://x.com/y''),
                      (js ''bar'', js ''latest'')]"
  have d1: "document ?m
   = js ''{'' @ [0x0A]
     @ js ''  '' @ [0x22] @ js ''imports'' @ [0x22] @ js '': {'' @ [0x0A]
     @ js ''    '' @ [0x22] @ js ''foo'' @ [0x22] @ js '': ''
       @ [0x22] @ js ''https://cdn.skypack.dev/foo@1.2.3'' @ [0x22] @ js '','' @ [0x0A]
     @ js ''    '' @ [0x22] @ js ''a'' @ [0x5C, 0x22] @ js ''b'' @ [0x22] @ js '': ''
       @ [0x22] @ js ''x'' @ [0x5C, 0x5C] @ [0x5C] @ js ''n'' @ [0x5C] @ js ''ud800''
       @ [0x5C] @ js ''u0001'' @ [0xD83D, 0xDE00, 0xE9] @ [0x22] @ [0x0A]
     @ js ''  }'' @ [0x0A]
     @ js ''}''"
    by code_simp
  have d2: "document []
     = js ''{'' @ [0x0A]
       @ js ''  '' @ [0x22] @ js ''imports'' @ [0x22] @ js '': {}'' @ [0x0A]
       @ js ''}''"
    by code_simp
  have g: "getImports semver7 ?p (mainKeys False False False) Skypack
           = Inr ([(js ''foo'', js ''https://cdn.skypack.dev/foo@1.2.3''),
                   (js ''bar'', js ''https://cdn.skypack.dev/bar@latest'')],
                  [GitDependency (js ''git+https://x.com/y'') (js ''g'')])"
    by code_simp
  have d3: "document [(js ''foo'', js ''https://cdn.skypack.dev/foo@1.2.3''),
                      (js ''bar'', js ''https://cdn.skypack.dev/bar@latest'')]
     = js ''{'' @ [0x0A]
            @ js ''  '' @ [0x22] @ js ''imports'' @ [0x22] @ js '': {'' @ [0x0A]
            @ js ''    '' @ [0x22] @ js ''foo'' @ [0x22] @ js '': ''
              @ [0x22] @ js ''https://cdn.skypack.dev/foo@1.2.3'' @ [0x22] @ js '','' @ [0x0A]
            @ js ''    '' @ [0x22] @ js ''bar'' @ [0x22] @ js '': ''
              @ [0x22] @ js ''https://cdn.skypack.dev/bar@latest'' @ [0x22] @ [0x0A]
            @ js ''  }'' @ [0x0A]
            @ js ''}''"
    by code_simp
  note t1 = import_map_written_document [of ?m semver7 ?p Skypack False False False]
  note t2 = import_map_written_document [of "[]" semver7 ?p Skypack False False False]
  from t1 have a: "JSON_stringify (importMapValue (importMap ?m)) (js ''  '') = document ?m"
    by (elim conjE)
  from t2 have b: "JSON_stringify (importMapValue (importMap [])) (js ''  '') = document []"
    by (elim conjE)
  from t1 have "main semver7 ?p Skypack False False False
       = (case getImports semver7 ?p (mainKeys False False False) Skypack of
            Inl e \<Rightarrow> Inl e
          | Inr st \<Rightarrow> Inr (document (fst st), snd st))"
    by (elim conjE)
  then have c: "main semver7 ?p Skypack False False False
       = Inr (document [(js ''foo'', js ''https://cdn.skypack.dev/foo@1.2.3''),
                        (js ''bar'', js ''https://cdn.skypack.dev/bar@latest'')],
              [GitDependency (js ''git+https://x.com/y'') (js ''g'')])"
    by (simp only: g sum.case fst_conv snd_conv)
  from a b c show ?thesis by (simp only: d1 d2 d3) 
qed

end
